theory Spec2Isabelle
  imports Complex_Main "HOL-Library.AList"
begin

section \<open>Dependency graph (lib/graph)\<close>

text \<open>
  A JavaScript \<open>Set<string>\<close> iterates in insertion order and holds no duplicates: it is a
  list, \<open>add\<close> appends an element that is not there yet, \<open>delete\<close> removes it.
  \<open>new Set(xs)\<close> adds the elements of the array \<open>xs\<close> one after the other.
\<close>

definition set_add :: "'a \<Rightarrow> 'a list \<Rightarrow> 'a list" where
  "set_add x xs = (if x \<in> set xs then xs else xs @ [x])"

definition set_delete :: "'a \<Rightarrow> 'a list \<Rightarrow> 'a list" where
  "set_delete x xs = removeAll x xs"

definition new_Set :: "'a list \<Rightarrow> 'a list" where
  "new_Set xs = fold set_add xs []"

text \<open>
  \<open>interface GraphNode { key; dependencies: Set<string>; dependents: Set<string> }\<close>.
  The \<open>Map<string, GraphNode>\<close> of the class is an association list in insertion order:
  \<open>get\<close> is \<open>map_of\<close>, \<open>set\<close> is \<open>AList.update\<close> (an existing key keeps its place, a
  new one goes to the end), \<open>delete\<close> is \<open>AList.delete\<close>.
\<close>

record GraphNode =
  key :: string
  dependencies :: "string list"
  dependents :: "string list"

type_synonym Graph = "(string \<times> GraphNode) list"

text \<open>\<open>depNode.dependents.delete(key)\<close> on the node stored under \<open>dep\<close>, if there is one.\<close>

definition drop_dependent :: "string \<Rightarrow> string \<Rightarrow> Graph \<Rightarrow> Graph" where
  "drop_dependent k dep g =
     (case map_of g dep of
        None \<Rightarrow> g
      | Some depNode \<Rightarrow>
          AList.update dep (depNode\<lparr>dependents := set_delete k (dependents depNode)\<rparr>) g)"

text \<open>\<open>dependentNode.dependencies.delete(key)\<close> on the node stored under \<open>dependent\<close>.\<close>

definition drop_dependency :: "string \<Rightarrow> string \<Rightarrow> Graph \<Rightarrow> Graph" where
  "drop_dependency k dependent_key g =
     (case map_of g dependent_key of
        None \<Rightarrow> g
      | Some dependentNode \<Rightarrow>
          AList.update dependent_key
            (dependentNode\<lparr>dependencies := set_delete k (dependencies dependentNode)\<rparr>) g)"

text \<open>
  The body of the last loop of \<open>updateCell\<close>: the node of \<open>dep\<close> is created when it is
  missing, then \<open>depNode.dependents.add(key)\<close>.
\<close>

definition add_dependent :: "string \<Rightarrow> string \<Rightarrow> Graph \<Rightarrow> Graph" where
  "add_dependent k dep g =
     (let depNode = (case map_of g dep of
                       None \<Rightarrow> \<lparr>key = dep, dependencies = [], dependents = []\<rparr>
                     | Some n \<Rightarrow> n)
      in AList.update dep (depNode\<lparr>dependents := set_add k (dependents depNode)\<rparr>) g)"

text \<open>
  \<open>updateCell(key, dependencies)\<close>. The new node takes the \<open>dependents\<close> set object of the
  old node; the first loop may already have deleted \<open>key\<close> from that very object (a cell that
  depended on itself), so the set is read from the store after the first loop.
\<close>

definition updateCell :: "Graph \<Rightarrow> string \<Rightarrow> string list \<Rightarrow> Graph" where
  "updateCell g k deps =
     (let g1 = (case map_of g k of
                  None \<Rightarrow> g
                | Some oldNode \<Rightarrow> fold (drop_dependent k) (dependencies oldNode) g);
          node = \<lparr>key = k, dependencies = new_Set deps,
                  dependents = (case map_of g1 k of
                                  None \<Rightarrow> []
                                | Some oldNode \<Rightarrow> dependents oldNode)\<rparr>;
          g2 = AList.update k node g1
      in fold (add_dependent k) deps g2)"

text \<open>
  \<open>removeCell(key)\<close>: the second loop iterates over \<open>node.dependents\<close> as the first loop
  left it.
\<close>

definition removeCell :: "Graph \<Rightarrow> string \<Rightarrow> Graph" where
  "removeCell g k =
     (case map_of g k of
        None \<Rightarrow> g
      | Some node \<Rightarrow>
          (let g1 = fold (drop_dependent k) (dependencies node) g;
               ds = (case map_of g1 k of None \<Rightarrow> [] | Some node1 \<Rightarrow> dependents node1);
               g2 = fold (drop_dependency k) ds g1
           in AList.delete k g2))"

definition clear :: "Graph \<Rightarrow> Graph" where
  "clear g = []"

text \<open>The states of a \<open>DependencyGraph\<close> object: \<open>new Map()\<close>, then any mutations.\<close>

inductive reachable :: "Graph \<Rightarrow> bool" where
  reachable_new: "reachable []"
| reachable_updateCell: "reachable g \<Longrightarrow> reachable (updateCell g k deps)"
| reachable_removeCell: "reachable g \<Longrightarrow> reachable (removeCell g k)"
| reachable_clear: "reachable g \<Longrightarrow> reachable (clear g)"

text \<open>The two edge relations a graph state records.\<close>

definition depends_on :: "Graph \<Rightarrow> string \<Rightarrow> string \<Rightarrow> bool" where
  "depends_on g a b = (case map_of g a of None \<Rightarrow> False | Some n \<Rightarrow> b \<in> set (dependencies n))"

definition dependent_of :: "Graph \<Rightarrow> string \<Rightarrow> string \<Rightarrow> bool" where
  "dependent_of g b a = (case map_of g b of None \<Rightarrow> False | Some n \<Rightarrow> a \<in> set (dependents n))"

subsection \<open>getAffectedCells\<close>

text \<open>Every key that can ever enter the queue: the queue itself and all recorded dependents.\<close>

definition bfs_universe :: "Graph \<Rightarrow> string list \<Rightarrow> string set" where
  "bfs_universe g queue = set queue \<union> (\<Union>n \<in> snd ` set g. set (dependents n))"

text \<open>
  The \<open>while (queue.length > 0)\<close> loop: \<open>queue.shift()\<close>, skip a visited key, mark it, skip
  a key without a node, otherwise add every dependent to \<open>affected\<close> and push it.
\<close>

function affected_loop ::
  "Graph \<Rightarrow> string list \<Rightarrow> string list \<Rightarrow> string list \<Rightarrow> string list" where
  "affected_loop g [] visited affected = affected"
| "affected_loop g (current # queue) visited affected =
     (if current \<in> set visited then affected_loop g queue visited affected
      else (case map_of g current of
              None \<Rightarrow> affected_loop g queue (set_add current visited) affected
            | Some node \<Rightarrow>
                affected_loop g (queue @ dependents node) (set_add current visited)
                  (fold set_add (dependents node) affected)))"
  by pat_completeness auto

lemma bfs_universe_step:
  "map_of g current = Some node \<Longrightarrow>
   bfs_universe g (queue @ dependents node) \<subseteq> bfs_universe g (current # queue)"
  by (auto simp: bfs_universe_def dest!: map_of_SomeD)

lemma bfs_universe_tl: "bfs_universe g queue \<subseteq> bfs_universe g (current # queue)"
  by (auto simp: bfs_universe_def)

lemma finite_bfs_universe: "finite (bfs_universe g queue)"
  by (simp add: bfs_universe_def)

lemma set_set_add [simp]: "set (set_add x xs) = insert x (set xs)"
  by (auto simp: set_add_def)

termination affected_loop
proof (relation "measures [\<lambda>(g, queue, visited, affected). card (bfs_universe g queue - set visited),
                           \<lambda>(g, queue, visited, affected). length queue]", goal_cases)
  case 1
  show ?case by simp
next
  case (2 g current queue visited affected)
  have "bfs_universe g queue - set visited \<subseteq> bfs_universe g (current # queue) - set visited"
    using bfs_universe_tl by blast
  then have "card (bfs_universe g queue - set visited)
             \<le> card (bfs_universe g (current # queue) - set visited)"
    by (intro card_mono) (simp_all add: finite_bfs_universe)
  then show ?case by auto
next
  case (3 g current queue visited affected)
  have "bfs_universe g queue - insert current (set visited)
          \<subset> bfs_universe g (current # queue) - set visited"
    using bfs_universe_tl[of g queue current] 3 by (auto simp: bfs_universe_def)
  then have "card (bfs_universe g queue - insert current (set visited))
             < card (bfs_universe g (current # queue) - set visited)"
    by (intro psubset_card_mono) (simp_all add: finite_bfs_universe)
  then show ?case by simp
next
  case (4 g current queue visited affected node)
  have "bfs_universe g (queue @ dependents node) - insert current (set visited)
          \<subset> bfs_universe g (current # queue) - set visited"
    using bfs_universe_step[OF 4(2), of queue] 4(1) by (auto simp: bfs_universe_def)
  then have "card (bfs_universe g (queue @ dependents node) - insert current (set visited))
             < card (bfs_universe g (current # queue) - set visited)"
    by (intro psubset_card_mono) (simp_all add: finite_bfs_universe)
  then show ?case by simp
qed

definition getAffectedCells :: "Graph \<Rightarrow> string \<Rightarrow> string list" where
  "getAffectedCells g k = affected_loop g [k] [] []"

definition dependents_rel :: "Graph \<Rightarrow> (string \<times> string) set" where
  "dependents_rel g = {(b, a). dependent_of g b a}"

lemma set_fold_set_add [simp]: "set (fold set_add xs acc) = set xs \<union> set acc"
  by (induction xs arbitrary: acc) auto

lemma distinct_set_add [simp]: "distinct xs \<Longrightarrow> distinct (set_add x xs)"
  by (simp add: set_add_def)

lemma distinct_fold_set_add [simp]: "distinct acc \<Longrightarrow> distinct (fold set_add xs acc)"
  by (induction xs arbitrary: acc) auto

lemma dependents_rel_iff:
  "(b, a) \<in> dependents_rel g \<longleftrightarrow> (\<exists>n. map_of g b = Some n \<and> a \<in> set (dependents n))"
  by (auto simp: dependents_rel_def dependent_of_def split: option.splits)

lemma affected_loop_distinct:
  "distinct affected \<Longrightarrow> distinct (affected_loop g queue visited affected)"
  by (induction g queue visited affected rule: affected_loop.induct)
     (auto split: option.splits)

lemma affected_loop_closure:
  assumes "set affected \<subseteq> (dependents_rel g)\<^sup>+ `` {k}"
    and "set queue \<subseteq> (dependents_rel g)\<^sup>* `` {k}"
    and "dependents_rel g `` set visited \<subseteq> set affected"
    and "insert k (set affected) \<subseteq> set visited \<union> set queue"
  shows "set (affected_loop g queue visited affected) = (dependents_rel g)\<^sup>+ `` {k}"
  using assms
proof (induction g queue visited affected rule: affected_loop.induct)
  case (1 g visited affected)
  have "(dependents_rel g)\<^sup>+ `` {k} \<subseteq> set affected"
  proof
    fix c assume "c \<in> (dependents_rel g)\<^sup>+ `` {k}"
    then have "(k, c) \<in> (dependents_rel g)\<^sup>+" by simp
    then show "c \<in> set affected"
    proof (induction rule: trancl_induct)
      case (base y)
      then show ?case using 1 by auto
    next
      case (step y z)
      then show ?case using 1 by auto
    qed
  qed
  with 1 show ?case by auto
next
  case (2 g current queue visited affected)
  show ?case
  proof (cases "current \<in> set visited")
    case True
    have "set queue \<subseteq> (dependents_rel g)\<^sup>* `` {k}" using 2(5) by auto
    moreover have "insert k (set affected) \<subseteq> set visited \<union> set queue"
      using 2(7) True by auto
    ultimately have "set (affected_loop g queue visited affected) = (dependents_rel g)\<^sup>+ `` {k}"
      using 2(1)[OF True 2(4)] 2(6) by blast
    then show ?thesis using True by simp
  next
    case notvis: False
    show ?thesis
    proof (cases "map_of g current")
      case None
      then have "dependents_rel g `` {current} = {}"
        by (auto simp: dependents_rel_iff)
      then have "dependents_rel g `` set (set_add current visited) \<subseteq> set affected"
        using 2(6) by auto
      moreover have "insert k (set affected) \<subseteq> set (set_add current visited) \<union> set queue"
        using 2(7) by auto
      moreover have "set queue \<subseteq> (dependents_rel g)\<^sup>* `` {k}" using 2(5) by auto
      ultimately show ?thesis using 2(2)[OF notvis None 2(4)] notvis None by simp
    next
      case (Some node)
      have cur: "(k, current) \<in> (dependents_rel g)\<^sup>*" using 2(5) by auto
      have step: "\<And>d. d \<in> set (dependents node) \<Longrightarrow> (current, d) \<in> dependents_rel g"
        using Some by (auto simp: dependents_rel_iff)
      have a: "set (fold set_add (dependents node) affected) \<subseteq> (dependents_rel g)\<^sup>+ `` {k}"
        using 2(4) cur step by (auto intro: rtrancl_into_trancl1)
      have b: "set (queue @ dependents node) \<subseteq> (dependents_rel g)\<^sup>* `` {k}"
        using 2(5) cur step by (auto intro: rtrancl_into_rtrancl)
      have "dependents_rel g `` {current} = set (dependents node)"
        using Some by (auto simp: dependents_rel_iff)
      then have c: "dependents_rel g `` set (set_add current visited)
                     \<subseteq> set (fold set_add (dependents node) affected)"
        using 2(6) by auto
      have d: "insert k (set (fold set_add (dependents node) affected))
                 \<subseteq> set (set_add current visited) \<union> set (queue @ dependents node)"
        using 2(7) by auto
      show ?thesis using 2(3)[OF notvis Some a b c d] notvis Some by simp
    qed
  qed
qed

text \<open>
  Claim C5, as the code has it: \<open>getAffectedCells(key)\<close> returns exactly the keys that can be
  reached from \<open>key\<close> over one or more \<open>dependents\<close> edges, each of them once, in every
  graph state. The start key is not filtered out: it is in the result exactly when it can be
  reached from itself, that is, when it lies on a dependency cycle.
\<close>

theorem getAffectedCells_closure:
  "set (getAffectedCells g k) = {c. (k, c) \<in> (dependents_rel g)\<^sup>+}
   \<and> distinct (getAffectedCells g k)"
proof -
  have "set (affected_loop g [k] [] []) = (dependents_rel g)\<^sup>+ `` {k}"
    by (rule affected_loop_closure) auto
  moreover have "distinct (affected_loop g [k] [] [])"
    by (rule affected_loop_distinct) simp
  ultimately show ?thesis
    unfolding getAffectedCells_def by blast
qed

lemma map_of_drop_dependent:
  "map_of (drop_dependent k dep g) x =
     (if x = dep then map_option (\<lambda>n. n\<lparr>dependents := set_delete k (dependents n)\<rparr>) (map_of g x)
      else map_of g x)"
  by (auto simp: drop_dependent_def update_conv' split: option.splits)

lemma set_delete_idem [simp]: "set_delete k (set_delete k xs) = set_delete k xs"
  by (simp add: set_delete_def)

lemma set_add_idem [simp]: "set_add k (set_add k xs) = set_add k xs"
  by (simp add: set_add_def)

lemma map_of_fold_drop_dependent:
  "map_of (fold (drop_dependent k) ds g) x =
     (if x \<in> set ds
      then map_option (\<lambda>n. n\<lparr>dependents := set_delete k (dependents n)\<rparr>) (map_of g x)
      else map_of g x)"
proof (induction ds arbitrary: g)
  case Nil
  show ?case by simp
next
  case (Cons d ds)
  show ?case
    by (cases "map_of g x") (auto simp: Cons map_of_drop_dependent)
qed

lemma map_of_drop_dependency:
  "map_of (drop_dependency k d g) x =
     (if x = d then map_option (\<lambda>n. n\<lparr>dependencies := set_delete k (dependencies n)\<rparr>) (map_of g x)
      else map_of g x)"
  by (auto simp: drop_dependency_def update_conv' split: option.splits)

lemma map_of_fold_drop_dependency:
  "map_of (fold (drop_dependency k) ds g) x =
     (if x \<in> set ds
      then map_option (\<lambda>n. n\<lparr>dependencies := set_delete k (dependencies n)\<rparr>) (map_of g x)
      else map_of g x)"
proof (induction ds arbitrary: g)
  case Nil
  show ?case by simp
next
  case (Cons d ds)
  show ?case
    by (cases "map_of g x") (auto simp: Cons map_of_drop_dependency)
qed

definition node_or_new :: "Graph \<Rightarrow> string \<Rightarrow> GraphNode" where
  "node_or_new g x =
     (case map_of g x of None \<Rightarrow> \<lparr>key = x, dependencies = [], dependents = []\<rparr> | Some n \<Rightarrow> n)"

lemma map_of_add_dependent:
  "map_of (add_dependent k dep g) x =
     (if x = dep
      then Some ((node_or_new g x)\<lparr>dependents := set_add k (dependents (node_or_new g x))\<rparr>)
      else map_of g x)"
  by (auto simp: add_dependent_def node_or_new_def update_conv' Let_def split: option.splits)

lemma map_of_fold_add_dependent:
  "map_of (fold (add_dependent k) ds g) x =
     (if x \<in> set ds
      then Some ((node_or_new g x)\<lparr>dependents := set_add k (dependents (node_or_new g x))\<rparr>)
      else map_of g x)"
proof (induction ds arbitrary: g)
  case Nil
  show ?case by simp
next
  case (Cons d ds)
  show ?case
    by (auto simp: Cons map_of_add_dependent node_or_new_def)
qed

lemma set_set_delete [simp]: "set (set_delete k xs) = set xs - {k}"
  by (simp add: set_delete_def)

lemma set_new_Set [simp]: "set (new_Set xs) = set xs"
  by (simp add: new_Set_def)

definition edge_symmetric :: "Graph \<Rightarrow> bool" where
  "edge_symmetric g = (\<forall>a b. depends_on g a b \<longleftrightarrow> dependent_of g b a)"

lemma map_of_updateCell:
  "map_of (updateCell g k deps) x =
     (let g1 = (case map_of g k of
                  None \<Rightarrow> g
                | Some oldNode \<Rightarrow> fold (drop_dependent k) (dependencies oldNode) g);
          node = \<lparr>key = k, dependencies = new_Set deps,
                  dependents = (case map_of g1 k of
                                  None \<Rightarrow> []
                                | Some oldNode \<Rightarrow> dependents oldNode)\<rparr>;
          g2 = AList.update k node g1
      in if x \<in> set deps
         then Some ((node_or_new g2 x)\<lparr>dependents := set_add k (dependents (node_or_new g2 x))\<rparr>)
         else map_of g2 x)"
  by (simp add: updateCell_def Let_def map_of_fold_add_dependent)

lemma depends_on_updateCell:
  "depends_on (updateCell g k deps) a b \<longleftrightarrow>
     (if a = k then b \<in> set deps else depends_on g a b)"
  by (auto simp: depends_on_def map_of_updateCell Let_def node_or_new_def update_conv'
        map_of_fold_drop_dependent split: option.splits if_splits)

lemma dependent_of_updateCell:
  assumes "edge_symmetric g"
  shows "dependent_of (updateCell g k deps) b a \<longleftrightarrow>
     (if a = k then b \<in> set deps else dependent_of g b a)"
proof -
  have sym: "\<And>n. map_of g b = Some n \<Longrightarrow> k \<in> set (dependents n) \<Longrightarrow> depends_on g k b"
    using assms by (auto simp: edge_symmetric_def dependent_of_def)
  show ?thesis
    using sym
    by (auto simp: dependent_of_def depends_on_def map_of_updateCell Let_def node_or_new_def
        update_conv' map_of_fold_drop_dependent split: option.splits if_splits)
qed

lemma edge_symmetric_updateCell:
  "edge_symmetric g \<Longrightarrow> edge_symmetric (updateCell g k deps)"
  unfolding edge_symmetric_def
  using depends_on_updateCell dependent_of_updateCell edge_symmetric_def by auto

lemma map_of_removeCell:
  "map_of g k = Some node \<Longrightarrow>
   map_of (removeCell g k) x =
     (let g1 = fold (drop_dependent k) (dependencies node) g;
          ds = (case map_of g1 k of None \<Rightarrow> [] | Some node1 \<Rightarrow> dependents node1)
      in if x = k then None
         else if x \<in> set ds
         then map_option (\<lambda>n. n\<lparr>dependencies := set_delete k (dependencies n)\<rparr>) (map_of g1 x)
         else map_of g1 x)"
  by (simp add: removeCell_def Let_def delete_conv' map_of_fold_drop_dependency)

lemma removeCell_absent: "map_of g k = None \<Longrightarrow> removeCell g k = g"
  by (simp add: removeCell_def)

lemma depends_on_removeCell:
  assumes "edge_symmetric g" and "map_of g k = Some node"
  shows "depends_on (removeCell g k) a b \<longleftrightarrow> a \<noteq> k \<and> b \<noteq> k \<and> depends_on g a b"
proof -
  have sym: "\<And>n. map_of g a = Some n \<Longrightarrow> k \<in> set (dependencies n) \<Longrightarrow> a \<in> set (dependents node)"
    using assms by (auto simp: edge_symmetric_def dependent_of_def depends_on_def split: option.splits)
  show ?thesis
    using sym assms(2)
    by (auto simp: depends_on_def map_of_removeCell[OF assms(2)] Let_def
        map_of_fold_drop_dependent split: option.splits if_splits)
qed

lemma dependent_of_removeCell:
  assumes "edge_symmetric g" and "map_of g k = Some node"
  shows "dependent_of (removeCell g k) b a \<longleftrightarrow> a \<noteq> k \<and> b \<noteq> k \<and> dependent_of g b a"
proof -
  have sym: "\<And>n. map_of g b = Some n \<Longrightarrow> k \<in> set (dependents n) \<Longrightarrow> b \<in> set (dependencies node)"
    using assms by (auto simp: edge_symmetric_def dependent_of_def depends_on_def split: option.splits)
  show ?thesis
    using sym assms(2)
    by (auto simp: dependent_of_def map_of_removeCell[OF assms(2)] Let_def
        map_of_fold_drop_dependent split: option.splits if_splits)
qed

lemma edge_symmetric_removeCell:
  assumes "edge_symmetric g"
  shows "edge_symmetric (removeCell g k)"
proof (cases "map_of g k")
  case None
  then show ?thesis using assms by (simp add: removeCell_absent)
next
  case (Some node)
  show ?thesis
    unfolding edge_symmetric_def
    using depends_on_removeCell[OF assms Some] dependent_of_removeCell[OF assms Some] assms
    by (auto simp: edge_symmetric_def)
qed

lemma edge_symmetric_new: "edge_symmetric []"
  by (simp add: edge_symmetric_def depends_on_def dependent_of_def)

lemma reachable_edge_symmetric: "reachable g \<Longrightarrow> edge_symmetric g"
  by (induction rule: reachable.induct)
     (simp_all add: edge_symmetric_new edge_symmetric_updateCell edge_symmetric_removeCell clear_def)

lemma depends_on_iff:
  "depends_on g a b \<longleftrightarrow> (\<exists>n. map_of g a = Some n \<and> b \<in> set (dependencies n))"
  by (cases "map_of g a") (auto simp: depends_on_def)

lemma dependent_of_iff:
  "dependent_of g b a \<longleftrightarrow> (\<exists>m. map_of g b = Some m \<and> a \<in> set (dependents m))"
  by (cases "map_of g b") (auto simp: dependent_of_def)

text \<open>
  Claim C7: edge symmetry is an invariant of the dependency graph. In every state reached from
  the empty graph by \<open>updateCell\<close>, \<open>removeCell\<close> and \<open>clear\<close>, a key \<open>a\<close> has \<open>b\<close> in its
  \<open>dependencies\<close> set if and only if the node of \<open>b\<close> exists and has \<open>a\<close> in its
  \<open>dependents\<close> set.
\<close>

theorem edge_symmetry_invariant:
  "reachable g \<Longrightarrow> depends_on g a b \<longleftrightarrow> dependent_of g b a"
  using reachable_edge_symmetric edge_symmetric_def by blast

definition example_graph :: Graph where
  "example_graph =
     removeCell (updateCell (updateCell [] ''r0c0'' [''r0c1'', ''r0c2'']) ''r0c3'' [''r0c0''])
       ''r0c2''"

text \<open>The invariant at a state built by two updates and a removal.\<close>

theorem edge_symmetry_invariant_witness:
  "reachable example_graph
   \<and> depends_on example_graph ''r0c0'' ''r0c1''
   \<and> dependent_of example_graph ''r0c1'' ''r0c0''"
proof -
  have r: "reachable example_graph"
    unfolding example_graph_def by (intro reachable.intros)
  have d: "depends_on example_graph ''r0c0'' ''r0c1''"
    by code_simp
  from r d edge_symmetry_invariant[OF r, of "''r0c0''" "''r0c1''"] show ?thesis by blast
qed

text \<open>
  \<open>getTopologicalOrder\<close> is Kahn's algorithm on the given keys. The in-degree table is a
  \<open>Map\<close> filled only for keys that have a node (\<open>if (!node) continue\<close>); decrementing an
  entry the table lacks gives \<open>NaN\<close> in the source (\<open>undefined - 1\<close>), which is
  \<open>DegreeNaN\<close> here. The result is \<open>null\<close> (\<open>None\<close>) when fewer keys were emitted than
  were given.
\<close>

datatype degree = Degree int | DegreeNaN

definition count_in :: "string list \<Rightarrow> string list \<Rightarrow> int" where
  "count_in keys deps = int (length (filter (\<lambda>dep. dep \<in> set keys) deps))"

fun init_degrees ::
  "Graph \<Rightarrow> string list \<Rightarrow> string list \<Rightarrow> (string \<rightharpoonup> degree) \<times> string list
     \<Rightarrow> (string \<rightharpoonup> degree) \<times> string list" where
  "init_degrees g keys [] (inDegree, queue) = (inDegree, queue)"
| "init_degrees g keys (k # rest) (inDegree, queue) =
     (case map_of g k of
        None \<Rightarrow> init_degrees g keys rest (inDegree, queue)
      | Some node \<Rightarrow>
          (let degree = count_in keys (dependencies node)
           in init_degrees g keys rest
                (inDegree(k \<mapsto> Degree degree), if degree = 0 then queue @ [k] else queue)))"

definition decrement :: "degree option \<Rightarrow> degree" where
  "decrement d = (case d of Some (Degree n) \<Rightarrow> Degree (n - 1) | _ \<Rightarrow> DegreeNaN)"

definition relax ::
  "string list \<Rightarrow> string \<Rightarrow> (string \<rightharpoonup> degree) \<times> string list
     \<Rightarrow> (string \<rightharpoonup> degree) \<times> string list" where
  "relax keys dependent_key s =
     (case s of (inDegree, queue) \<Rightarrow>
        if dependent_key \<notin> set keys then (inDegree, queue)
        else (let degree = decrement (inDegree dependent_key)
              in (inDegree(dependent_key \<mapsto> degree),
                  if degree = Degree 0 then queue @ [dependent_key] else queue)))"

definition positive :: "degree option \<Rightarrow> bool" where
  "positive d = (case d of Some (Degree n) \<Rightarrow> 0 < n | _ \<Rightarrow> False)"

definition pending :: "string list \<Rightarrow> (string \<rightharpoonup> degree) \<Rightarrow> string set" where
  "pending keys inDegree = {k \<in> set keys. positive (inDegree k)}"

function kahn_loop ::
  "Graph \<Rightarrow> string list \<Rightarrow> (string \<rightharpoonup> degree) \<Rightarrow> string list \<Rightarrow> string list \<Rightarrow> string list"
  where
  "kahn_loop g keys inDegree [] result = result"
| "kahn_loop g keys inDegree (current # queue) result =
     (case map_of g current of
        None \<Rightarrow> kahn_loop g keys inDegree queue (result @ [current])
      | Some node \<Rightarrow>
          (case fold (relax keys) (dependents node) (inDegree, queue) of
             (inDegree', queue') \<Rightarrow> kahn_loop g keys inDegree' queue' (result @ [current])))"
  by pat_completeness auto

lemma finite_pending [simp]: "finite (pending keys inDegree)"
  by (simp add: pending_def)

lemma decrement_zero: "decrement d = Degree 0 \<longleftrightarrow> d = Some (Degree 1)"
  by (cases d) (auto simp: decrement_def split: degree.splits)

lemma positive_decrement: "positive (Some (decrement d)) \<Longrightarrow> positive d"
  by (cases d) (auto simp: decrement_def positive_def split: degree.splits)

lemma pending_update:
  "pending keys (inDegree(d \<mapsto> v)) =
     (if d \<in> set keys \<and> positive (Some v) then insert d (pending keys inDegree)
      else pending keys inDegree - {d})"
  by (auto simp: pending_def)

lemma relax_measure:
  assumes r: "relax keys d (inDegree, queue) = (inDegree', queue')"
  shows "length queue' + card (pending keys inDegree')
           \<le> length queue + card (pending keys inDegree)"
proof (cases "d \<in> set keys")
  case False
  with r show ?thesis by (simp add: relax_def)
next
  case True
  show ?thesis
  proof (cases "decrement (inDegree d) = Degree 0")
    case z: True
    then have old: "inDegree d = Some (Degree 1)"
      by (simp add: decrement_zero)
    have q: "queue' = queue @ [d]" and i: "inDegree' = inDegree(d \<mapsto> Degree 0)"
      using r True z by (simp_all add: relax_def Let_def)
    have "pending keys inDegree' = pending keys inDegree - {d}"
      by (simp add: i pending_update positive_def)
    moreover have mem: "d \<in> pending keys inDegree"
      using old True by (simp add: pending_def positive_def)
    moreover have "0 < card (pending keys inDegree)"
      using mem finite_pending card_gt_0_iff by blast
    ultimately have "card (pending keys inDegree') + 1 = card (pending keys inDegree)"
      by (simp add: card_Diff_singleton)
    then show ?thesis using q by simp
  next
    case nz: False
    have q: "queue' = queue" and i: "inDegree' = inDegree(d \<mapsto> decrement (inDegree d))"
      using r True nz by (simp_all add: relax_def Let_def)
    have "pending keys inDegree' \<subseteq> pending keys inDegree"
    proof (cases "positive (Some (decrement (inDegree d)))")
      case True
      then have "d \<in> pending keys inDegree"
        using \<open>d \<in> set keys\<close> positive_decrement by (simp add: pending_def)
      then show ?thesis using True \<open>d \<in> set keys\<close> by (auto simp: i pending_update)
    next
      case False
      then show ?thesis by (auto simp: i pending_update)
    qed
    then have "card (pending keys inDegree') \<le> card (pending keys inDegree)"
      by (simp add: card_mono)
    then show ?thesis using q by simp
  qed
qed

lemma fold_relax_measure:
  "fold (relax keys) ds (inDegree, queue) = (inDegree', queue') \<Longrightarrow>
   length queue' + card (pending keys inDegree') \<le> length queue + card (pending keys inDegree)"
proof (induction ds arbitrary: inDegree queue)
  case Nil
  then show ?case by simp
next
  case (Cons d ds)
  obtain i1 q1 where s: "relax keys d (inDegree, queue) = (i1, q1)"
    using prod.exhaust by blast
  have "fold (relax keys) (d # ds) (inDegree, queue) = fold (relax keys) ds (i1, q1)"
    by (simp only: fold_simps s)
  with Cons.prems have "fold (relax keys) ds (i1, q1) = (inDegree', queue')"
    by (simp only:)
  then have "length queue' + card (pending keys inDegree') \<le> length q1 + card (pending keys i1)"
    by (rule Cons.IH)
  moreover have "length q1 + card (pending keys i1) \<le> length queue + card (pending keys inDegree)"
    using s by (rule relax_measure)
  ultimately show ?case by (rule order_trans)
qed

termination kahn_loop
proof (relation "measure (\<lambda>(g, keys, inDegree, queue, result).
                             length queue + card (pending keys inDegree))", goal_cases)
  case 1
  show ?case by simp
next
  case 2
  then show ?case by simp
next
  case (3 g keys inDegree current queue result node inDegree' queue')
  from fold_relax_measure[OF 3(2)[symmetric]] show ?case by simp
qed

definition getTopologicalOrder :: "Graph \<Rightarrow> string list \<Rightarrow> string list option" where
  "getTopologicalOrder g keys =
     (case init_degrees g keys keys (Map.empty, []) of
        (inDegree, queue) \<Rightarrow>
          (let result = kahn_loop g keys inDegree queue []
           in if length result \<noteq> length keys then None else Some result))"

text \<open>
  Claim C5 as the specification words it, with the start key always excluded, fails on a cell
  that depends on itself: after \<open>updateCell("r0c0", ["r0c0"])\<close> the key is its own dependent
  and \<open>getAffectedCells("r0c0")\<close> returns it.
\<close>

theorem getAffectedCells_contains_key:
  "getAffectedCells (updateCell [] ''r0c0'' [''r0c0'']) ''r0c0'' = [''r0c0'']"
  by code_simp

text \<open>
  Claim C4 on a subset with a key the graph has no node for. After
  \<open>updateCell("r0c0", ["r0c1"])\<close> the only edge is \<open>r0c0 \<rightarrow> r0c1\<close>, so the subset
  \<open>{r0c0, r0c1, r0c5}\<close> has no cycle; \<open>r0c5\<close> is skipped by the initialisation, never
  emitted, and the length test returns the cycle signal. Without \<open>r0c5\<close> the same subset is
  ordered.
\<close>

theorem getTopologicalOrder_unknown_key:
  "getTopologicalOrder (updateCell [] ''r0c0'' [''r0c1'']) [''r0c0'', ''r0c1'', ''r0c5''] = None
   \<and> getTopologicalOrder (updateCell [] ''r0c0'' [''r0c1'']) [''r0c0'', ''r0c1'']
       = Some [''r0c1'', ''r0c0'']
   \<and> map_of (updateCell [] ''r0c0'' [''r0c1'']) ''r0c5'' = None"
  by code_simp

section \<open>A1 notation (lib/a1)\<close>

text \<open>
  Row and column numbers are JavaScript numbers in the source, that is doubles; here they are
  integers. The two agree as long as every number that occurs is at most
  \<open>Number.MAX_SAFE_INTEGER\<close>, \<open>2^53 - 1\<close>: up to there a double holds every integer, and
  addition, subtraction, multiplication, \<open>%\<close>, \<open>Math.floor\<close> of a quotient, \<open>parseInt\<close> and
  the decimal text of a number are exact. Beyond it the source rounds: \<open>parseInt\<close> of
  \<open>9007199254740993\<close> is \<open>9007199254740992\<close>, and \<open>++\<close> no longer changes a counter that
  has reached \<open>2^53\<close>, so a loop up to such a bound does not end. The statements below that
  rest on row and column arithmetic are made for numbers within the bound.
\<close>

record CellAddress =
  col :: int
  row :: int

record CellRef = CellAddress +
  absCol :: bool
  absRow :: bool



definition charCode :: "char \<Rightarrow> int" where
  "charCode c = int (of_char c)"

definition fromCharCode :: "int \<Rightarrow> char" where
  "fromCharCode n = char_of (nat n)"

definition is_digit :: "char \<Rightarrow> bool" where
  "is_digit c = (48 \<le> charCode c \<and> charCode c \<le> 57)"

definition is_upper :: "char \<Rightarrow> bool" where
  "is_upper c = (65 \<le> charCode c \<and> charCode c \<le> 90)"

definition is_lower :: "char \<Rightarrow> bool" where
  "is_lower c = (97 \<le> charCode c \<and> charCode c \<le> 122)"

definition is_letter :: "char \<Rightarrow> bool" where
  "is_letter c = (is_upper c \<or> is_lower c)"

definition toUpperCase :: "string \<Rightarrow> string" where
  "toUpperCase s = map (\<lambda>c. if is_lower c then fromCharCode (charCode c - 32) else c) s"

text \<open>The decimal text of an integer, as string concatenation with a number gives it.\<close>

fun nat_digits :: "nat \<Rightarrow> string" where
  "nat_digits n =
     (if n < 10 then [fromCharCode (48 + int n)]
      else nat_digits (n div 10) @ [fromCharCode (48 + int (n mod 10))])"

definition int_toString :: "int \<Rightarrow> string" where
  "int_toString i = (if i < 0 then CHR ''-'' # nat_digits (nat (- i)) else nat_digits (nat i))"

text \<open>\<open>parseInt(s, 10)\<close> on a string of digits.\<close>

definition parseInt :: "string \<Rightarrow> int" where
  "parseInt s = foldl (\<lambda>acc c. acc * 10 + (charCode c - 48)) 0 s"

fun colToLetter_loop :: "nat \<Rightarrow> string \<Rightarrow> string" where
  "colToLetter_loop num result =
     (if num > 0
      then colToLetter_loop ((num - 1) div 26) (fromCharCode (65 + int ((num - 1) mod 26)) # result)
      else result)"

definition colToLetter :: "int \<Rightarrow> string" where
  "colToLetter c = colToLetter_loop (nat (c + 1)) []"

definition letterToCol :: "string \<Rightarrow> int" where
  "letterToCol letters =
     foldl (\<lambda>result c. result * 26 + (charCode c - 64)) 0 (toUpperCase letters) - 1"

definition addressToA1 :: "CellAddress \<Rightarrow> string" where
  "addressToA1 addr = colToLetter (CellAddress.col addr) @ int_toString (CellAddress.row addr + 1)"

text \<open>
  The match of \<open>/^([A-Z]+)(\d+)$/i\<close>: letters, then digits to the end of the string, at least
  one of each.
\<close>

definition match_a1 :: "string \<Rightarrow> (string \<times> string) option" where
  "match_a1 s =
     (let letters = takeWhile is_letter s; digits = dropWhile is_letter s
      in if letters \<noteq> [] \<and> digits \<noteq> [] \<and> list_all is_digit digits
         then Some (letters, digits) else None)"

definition a1ToAddress :: "string \<Rightarrow> CellAddress option" where
  "a1ToAddress a1 =
     (case match_a1 a1 of
        None \<Rightarrow> None
      | Some (letters, digits) \<Rightarrow>
          (let c = letterToCol letters; r = parseInt digits - 1
           in if r < 0 \<or> c < 0 then None else Some \<lparr>col = c, row = r\<rparr>))"





section \<open>Abstract syntax (types/sheet)\<close>

text \<open>
  \<open>ASTNode\<close> is one interface with a \<open>type\<close> tag; each tag is a constructor carrying the
  fields that tag uses. The type \<open>'n\<close> stands for JavaScript numbers.
\<close>

datatype 'n ASTNode =
    Number 'n
  | String string
  | CellRef string
  | RangeRef string string
  | BinaryOp string "'n ASTNode" "'n ASTNode"
  | UnaryOp string "'n ASTNode"
  | FunctionCall string "'n ASTNode list"

text \<open>
  The arithmetic of JavaScript numbers (IEEE doubles) is a parameter of the model: the
  operations the engine applies to numbers, nothing assumed about them.
\<close>

record 'n numops =
  zero :: 'n
  of_length :: "nat \<Rightarrow> 'n"
  add :: "'n \<Rightarrow> 'n \<Rightarrow> 'n"
  sub :: "'n \<Rightarrow> 'n \<Rightarrow> 'n"
  mul :: "'n \<Rightarrow> 'n \<Rightarrow> 'n"
  divide :: "'n \<Rightarrow> 'n \<Rightarrow> 'n"
  pow :: "'n \<Rightarrow> 'n \<Rightarrow> 'n"
  is_zero :: "'n \<Rightarrow> bool"
  parseFloat :: "string \<Rightarrow> 'n"
  isNaN :: "'n \<Rightarrow> bool"
  toString :: "'n \<Rightarrow> string"
  min_of :: "'n list \<Rightarrow> 'n"
  max_of :: "'n list \<Rightarrow> 'n"

section \<open>Evaluator (lib/evaluator)\<close>

text \<open>
  A cell holds a number or a string; \<open>CellGetter\<close> returns \<open>undefined\<close> (\<open>None\<close>) for an
  empty cell. \<open>evaluate\<close> returns a number, a string or, for a range, an array of cell values.
\<close>

datatype 'n scalar = NumV 'n | StrV string

datatype 'n evalue = Scalar "'n scalar" | Values "'n scalar list"

type_synonym 'n CellGetter = "string \<Rightarrow> 'n scalar option"

text \<open>A thrown \<open>EvalError\<close> is \<open>Inl\<close> of its message.\<close>

type_synonym 'a eval_result = "string + 'a"

definition toNumber :: "'n numops \<Rightarrow> 'n evalue \<Rightarrow> 'n eval_result" where
  "toNumber ops v =
     (case v of
        Scalar (NumV n) \<Rightarrow> Inr n
      | Scalar (StrV s) \<Rightarrow>
          (let num = parseFloat ops s in if isNaN ops num then Inl ''#VALUE!'' else Inr num)
      | Values _ \<Rightarrow> Inl ''#VALUE!'')"

definition tryToNumber :: "'n numops \<Rightarrow> 'n scalar \<Rightarrow> 'n option" where
  "tryToNumber ops v =
     (case v of
        NumV n \<Rightarrow> Some n
      | StrV s \<Rightarrow> (let num = parseFloat ops s in if isNaN ops num then None else Some num))"

definition addressToRef :: "CellAddress \<Rightarrow> string" where
  "addressToRef addr =
     fromCharCode (65 + (CellAddress.col addr mod 26)) # int_toString (CellAddress.row addr + 1)"

definition strip_dollar :: "string \<Rightarrow> string" where
  "strip_dollar s = filter (\<lambda>c. c \<noteq> CHR ''$'') s"

text \<open>
  The body of the inner loop over a range: the reference of the cell is recorded and its
  value, when there is one, pushed.
\<close>

definition range_cell ::
  "'n CellGetter \<Rightarrow> int \<Rightarrow> string list \<times> 'n scalar list \<Rightarrow> int
     \<Rightarrow> string list \<times> 'n scalar list" where
  "range_cell getCellValue r s c =
     (case s of (usedRefs, values) \<Rightarrow>
        (let cellRef = addressToRef \<lparr>col = c, row = r\<rparr>;
             usedRefs' = set_add cellRef usedRefs
         in case getCellValue cellRef of
              None \<Rightarrow> (usedRefs', values)
            | Some v \<Rightarrow> (usedRefs', values @ [v])))"

definition range_cells ::
  "'n CellGetter \<Rightarrow> CellAddress \<Rightarrow> CellAddress \<Rightarrow> string list
     \<Rightarrow> string list \<times> 'n scalar list" where
  "range_cells getCellValue startAddr endAddr usedRefs =
     (let minRow = min (CellAddress.row startAddr) (CellAddress.row endAddr);
          maxRow = max (CellAddress.row startAddr) (CellAddress.row endAddr);
          minCol = min (CellAddress.col startAddr) (CellAddress.col endAddr);
          maxCol = max (CellAddress.col startAddr) (CellAddress.col endAddr)
      in foldl (\<lambda>s r. foldl (range_cell getCellValue r) s [minCol..maxCol])
           (usedRefs, []) [minRow..maxRow])"

definition sum_values :: "'n numops \<Rightarrow> 'n list \<Rightarrow> 'n" where
  "sum_values ops values = foldl (add ops) (zero ops) values"

definition evaluateFunction :: "'n numops \<Rightarrow> string \<Rightarrow> 'n list \<Rightarrow> 'n eval_result" where
  "evaluateFunction ops name values =
     (if name = ''SUM'' then Inr (sum_values ops values)
      else if name = ''AVG'' then
        (if values = [] then Inr (zero ops)
         else Inr (divide ops (sum_values ops values) (of_length ops (length values))))
      else if name = ''MIN'' then
        (if values = [] then Inr (zero ops) else Inr (min_of ops values))
      else if name = ''MAX'' then
        (if values = [] then Inr (zero ops) else Inr (max_of ops values))
      else if name = ''COUNT'' then Inr (of_length ops (length values))
      else if name = ''AVERAGE'' then
        (if values = [] then Inr (zero ops)
         else Inr (divide ops (sum_values ops values) (of_length ops (length values))))
      else Inl (''Unknown function: '' @ name))"

definition binary :: "'n numops \<Rightarrow> string \<Rightarrow> 'n \<Rightarrow> 'n \<Rightarrow> 'n eval_result" where
  "binary ops operator leftNum rightNum =
     (if operator = ''+'' then Inr (add ops leftNum rightNum)
      else if operator = ''-'' then Inr (sub ops leftNum rightNum)
      else if operator = ''*'' then Inr (mul ops leftNum rightNum)
      else if operator = ''/'' then
        (if is_zero ops rightNum then Inl ''#DIV/0!'' else Inr (divide ops leftNum rightNum))
      else if operator = ''^'' then Inr (pow ops leftNum rightNum)
      else Inl (''Unknown operator: '' @ operator))"

text \<open>What one evaluated argument adds to the numeric list of \<open>collectNumericValues\<close>.\<close>

definition numeric_of :: "'n numops \<Rightarrow> 'n evalue \<Rightarrow> 'n list" where
  "numeric_of ops result =
     (case result of
        Values vals \<Rightarrow> List.map_filter (tryToNumber ops) vals
      | Scalar v \<Rightarrow> (case tryToNumber ops v of None \<Rightarrow> [] | Some num \<Rightarrow> [num]))"

text \<open>
  \<open>Evaluator.evaluate\<close>, with the \<open>usedRefs\<close> set of the evaluator object passed in and
  returned; it is returned on an error too, as the object keeps it when \<open>evaluate\<close> throws.
  \<open>collectNumericValues\<close> is the loop over the arguments of a function call.
\<close>

fun evaluate ::
    "'n numops \<Rightarrow> 'n CellGetter \<Rightarrow> 'n ASTNode \<Rightarrow> string list
       \<Rightarrow> 'n evalue eval_result \<times> string list"
  and collectNumericValues ::
    "'n numops \<Rightarrow> 'n CellGetter \<Rightarrow> 'n ASTNode list \<Rightarrow> 'n list \<Rightarrow> string list
       \<Rightarrow> 'n list eval_result \<times> string list"
  where
  "evaluate ops getCellValue (Number v) usedRefs = (Inr (Scalar (NumV v)), usedRefs)"
| "evaluate ops getCellValue (String v) usedRefs = (Inr (Scalar (StrV v)), usedRefs)"
| "evaluate ops getCellValue (CellRef ref) usedRefs =
     (case getCellValue ref of
        None \<Rightarrow> (Inr (Scalar (NumV (zero ops))), set_add ref usedRefs)
      | Some v \<Rightarrow> (Inr (Scalar v), set_add ref usedRefs))"
| "evaluate ops getCellValue (RangeRef start end) usedRefs =
     (let usedRefs1 = set_add end (set_add start usedRefs)
      in case (a1ToAddress (strip_dollar start), a1ToAddress (strip_dollar end)) of
           (Some startAddr, Some endAddr) \<Rightarrow>
             (case range_cells getCellValue startAddr endAddr usedRefs1 of
                (usedRefs2, values) \<Rightarrow> (Inr (Values values), usedRefs2))
         | _ \<Rightarrow> (Inl ''#REF!'', usedRefs1))"
| "evaluate ops getCellValue (BinaryOp operator left right) usedRefs =
     (case evaluate ops getCellValue left usedRefs of
        (Inl e, usedRefs1) \<Rightarrow> (Inl e, usedRefs1)
      | (Inr l, usedRefs1) \<Rightarrow>
          (case evaluate ops getCellValue right usedRefs1 of
             (Inl e, usedRefs2) \<Rightarrow> (Inl e, usedRefs2)
           | (Inr r, usedRefs2) \<Rightarrow>
               (case toNumber ops l of
                  Inl e \<Rightarrow> (Inl e, usedRefs2)
                | Inr leftNum \<Rightarrow>
                    (case toNumber ops r of
                       Inl e \<Rightarrow> (Inl e, usedRefs2)
                     | Inr rightNum \<Rightarrow>
                         (map_sum id (\<lambda>n. Scalar (NumV n)) (binary ops operator leftNum rightNum),
                          usedRefs2)))))"
| "evaluate ops getCellValue (FunctionCall name args) usedRefs =
     (case collectNumericValues ops getCellValue args [] usedRefs of
        (Inl e, usedRefs1) \<Rightarrow> (Inl e, usedRefs1)
      | (Inr values, usedRefs1) \<Rightarrow>
          (map_sum id (\<lambda>n. Scalar (NumV n)) (evaluateFunction ops name values), usedRefs1))"
| "evaluate ops getCellValue (UnaryOp operator operand) usedRefs =
     (Inl ''Unknown node type: UnaryOp'', usedRefs)"
| "collectNumericValues ops getCellValue [] values usedRefs = (Inr values, usedRefs)"
| "collectNumericValues ops getCellValue (arg # rest) values usedRefs =
     (case evaluate ops getCellValue arg usedRefs of
        (Inl e, usedRefs1) \<Rightarrow> (Inl e, usedRefs1)
      | (Inr result, usedRefs1) \<Rightarrow>
          collectNumericValues ops getCellValue rest (values @ numeric_of ops result) usedRefs1)"

record 'n EvalResult =
  "value" :: "'n option"
  text_of :: "string option"
  error :: "string option"
  usedRefs :: "string list"

definition evaluateFormula :: "'n numops \<Rightarrow> 'n ASTNode \<Rightarrow> 'n CellGetter \<Rightarrow> 'n EvalResult" where
  "evaluateFormula ops ast getCellValue =
     (case evaluate ops getCellValue ast [] of
        (Inr (Scalar (NumV n)), refs) \<Rightarrow>
          \<lparr>value = Some n, text_of = Some (toString ops n), error = None, usedRefs = refs\<rparr>
      | (Inr (Scalar (StrV s)), refs) \<Rightarrow>
          \<lparr>value = None, text_of = Some s, error = None, usedRefs = refs\<rparr>
      | (Inr (Values _), refs) \<Rightarrow>
          \<lparr>value = None, text_of = None, error = Some ''#VALUE!'', usedRefs = refs\<rparr>
      | (Inl message, refs) \<Rightarrow>
          \<lparr>value = None, text_of = None, error = Some message, usedRefs = refs\<rparr>)"

section \<open>An arithmetic to run the model on examples\<close>

text \<open>
  Exact rational numbers and \<open>NaN\<close>. It agrees with double arithmetic wherever
  operands and results are exactly representable (the small integers and decimal fractions
  of the examples below); infinities, rounding, and powers with a fractional exponent are
  outside it and come out as \<open>NaN\<close>. The general theorems do not depend on it: they hold for
  every \<open>numops\<close>.
\<close>

datatype exact = Exact rat | NaN

definition lift2 :: "(rat \<Rightarrow> rat \<Rightarrow> rat) \<Rightarrow> exact \<Rightarrow> exact \<Rightarrow> exact" where
  "lift2 f a b = (case (a, b) of (Exact x, Exact y) \<Rightarrow> Exact (f x y) | _ \<Rightarrow> NaN)"

definition exact_divide :: "exact \<Rightarrow> exact \<Rightarrow> exact" where
  "exact_divide a b =
     (case (a, b) of (Exact x, Exact y) \<Rightarrow> (if y = 0 then NaN else Exact (x / y)) | _ \<Rightarrow> NaN)"

definition exact_pow :: "exact \<Rightarrow> exact \<Rightarrow> exact" where
  "exact_pow a b =
     (case (a, b) of
        (Exact x, Exact y) \<Rightarrow>
          (if y \<noteq> of_int \<lfloor>y\<rfloor> then NaN
           else if 0 \<le> y then Exact (x ^ nat \<lfloor>y\<rfloor>)
           else if x = 0 then NaN
           else Exact (1 / x ^ nat (- \<lfloor>y\<rfloor>)))
      | _ \<Rightarrow> NaN)"

definition is_space :: "char \<Rightarrow> bool" where
  "is_space c = (c = CHR '' '' \<or> c = CHR 0x09 \<or> c = CHR 0x0A \<or> c = CHR 0x0B
                 \<or> c = CHR 0x0C \<or> c = CHR 0x0D \<or> c = CHR 0xA0)"

definition digits_value :: "string \<Rightarrow> nat" where
  "digits_value s = foldl (\<lambda>acc c. acc * 10 + (of_char c - 48)) 0 s"

text \<open>
  \<open>parseFloat\<close>: leading white space, an optional sign, digits with an optional fraction, an
  optional exponent; \<open>NaN\<close> when there is no digit. Whatever follows is ignored.
\<close>

definition exact_exponent :: "string \<Rightarrow> int" where
  "exact_exponent s =
     (case s of
        e # rest \<Rightarrow>
          (if e = CHR ''e'' \<or> e = CHR ''E'' then
             (let neg = (rest \<noteq> [] \<and> hd rest = CHR ''-'');
                  signed = (rest \<noteq> [] \<and> (hd rest = CHR ''-'' \<or> hd rest = CHR ''+''));
                  ds = takeWhile is_digit (if signed then tl rest else rest)
              in if ds = [] then 0
                 else if neg then - int (digits_value ds) else int (digits_value ds))
           else 0)
      | [] \<Rightarrow> 0)"

definition exact_parseFloat :: "string \<Rightarrow> exact" where
  "exact_parseFloat s =
     (let s1 = dropWhile is_space s;
          neg = (s1 \<noteq> [] \<and> hd s1 = CHR ''-'');
          signed = (s1 \<noteq> [] \<and> (hd s1 = CHR ''-'' \<or> hd s1 = CHR ''+''));
          s2 = (if signed then tl s1 else s1);
          ip = takeWhile is_digit s2;
          s3 = dropWhile is_digit s2;
          dot = (s3 \<noteq> [] \<and> hd s3 = CHR ''.'');
          fp = (if dot then takeWhile is_digit (tl s3) else []);
          s4 = (if dot then dropWhile is_digit (tl s3) else s3);
          m = of_nat (digits_value ip) + of_nat (digits_value fp) / 10 ^ length fp;
          e = exact_exponent s4;
          v = (if 0 \<le> e then m * 10 ^ nat e else m / 10 ^ nat (- e))
      in if ip = [] \<and> fp = [] then NaN else Exact (if neg then - v else v))"

fun frac_digits :: "nat \<Rightarrow> rat \<Rightarrow> string" where
  "frac_digits 0 f = []"
| "frac_digits (Suc n) f =
     (if f = 0 then []
      else fromCharCode (48 + \<lfloor>10 * f\<rfloor>) # frac_digits n (10 * f - of_int \<lfloor>10 * f\<rfloor>))"

definition exact_toString :: "exact \<Rightarrow> string" where
  "exact_toString a =
     (case a of
        NaN \<Rightarrow> ''NaN''
      | Exact x \<Rightarrow>
          (if x = of_int \<lfloor>x\<rfloor> then int_toString \<lfloor>x\<rfloor>
           else (if x < 0 then ''-'' else '''') @ int_toString \<lfloor>\<bar>x\<bar>\<rfloor> @ ''.''
                @ frac_digits 17 (\<bar>x\<bar> - of_int \<lfloor>\<bar>x\<bar>\<rfloor>)))"

definition exact_extreme :: "(rat \<Rightarrow> rat \<Rightarrow> rat) \<Rightarrow> exact list \<Rightarrow> exact" where
  "exact_extreme f values =
     (case values of [] \<Rightarrow> NaN | v # vs \<Rightarrow> foldl (lift2 f) v vs)"

definition exact_ops :: "exact numops" where
  "exact_ops =
     \<lparr>zero = Exact 0, of_length = (\<lambda>n. Exact (of_nat n)),
      add = lift2 (+), sub = lift2 (-), mul = lift2 (*), divide = exact_divide,
      pow = exact_pow, is_zero = (\<lambda>a. a = Exact 0),
      parseFloat = exact_parseFloat, isNaN = (\<lambda>a. a = NaN), toString = exact_toString,
      min_of = exact_extreme min, max_of = exact_extreme max\<rparr>"























text \<open>A sheet with a number, a text that is no number, and a text that is one.\<close>

definition sheet_text :: "exact CellGetter" where
  "sheet_text ref =
     (if ref = ''A1'' then Some (NumV (Exact 10))
      else if ref = ''B1'' then Some (StrV ''abc'')
      else if ref = ''B2'' then Some (StrV ''3'')
      else None)"

text \<open>
  Claim C1, as the code has it: a reference to a cell that the lookup reports absent
  evaluates to the number zero, whatever asks for it. Used as an operand it enters the
  arithmetic as zero, and a formula that is just the bare reference has the numeric result
  zero with the text of zero; \<open>undefined\<close> is never returned.
\<close>

theorem empty_cell_is_zero:
  assumes "getCellValue ref = None"
  shows "evaluate ops getCellValue (CellRef ref) refs
           = (Inr (Scalar (NumV (zero ops))), set_add ref refs)
         \<and> (evaluate ops getCellValue right (set_add ref refs) = (Inr r, refs')
              \<and> toNumber ops r = Inr rightNum
            \<longrightarrow> evaluate ops getCellValue (BinaryOp operator (CellRef ref) right) refs
                  = (map_sum id (\<lambda>n. Scalar (NumV n)) (binary ops operator (zero ops) rightNum),
                     refs'))
         \<and> evaluateFormula ops (CellRef ref) getCellValue
           = \<lparr>value = Some (zero ops), text_of = Some (toString ops (zero ops)),
              error = None, usedRefs = [ref]\<rparr>"
  using assms by (simp add: evaluateFormula_def toNumber_def set_add_def)

theorem empty_cell_is_zero_witness:
  "sheet_text ''C1'' = None
   \<and> evaluate exact_ops sheet_text (CellRef ''C1'') [''A1'']
       = (Inr (Scalar (NumV (Exact 0))), [''A1'', ''C1''])
   \<and> evaluate exact_ops sheet_text (BinaryOp ''+'' (CellRef ''C1'') (CellRef ''A1'')) [''A1'']
       = (Inr (Scalar (NumV (Exact 10))), [''A1'', ''C1''])
   \<and> evaluateFormula exact_ops (CellRef ''C1'') sheet_text
       = \<lparr>value = Some (Exact 0), text_of = Some ''0'', error = None, usedRefs = [''C1'']\<rparr>"
proof -
  have h: "sheet_text ''C1'' = None" by code_simp
  have z: "zero exact_ops = Exact 0" by code_simp
  have t: "toString exact_ops (Exact 0) = ''0''" by code_simp
  have s: "set_add ''C1'' [''A1''] = [''A1'', ''C1'']" by code_simp
  have e: "evaluate exact_ops sheet_text (CellRef ''A1'') [''A1'', ''C1'']
             = (Inr (Scalar (NumV (Exact 10))), [''A1'', ''C1''])"
    by code_simp
  have n: "toNumber exact_ops (Scalar (NumV (Exact 10))) = Inr (Exact 10)" by code_simp
  have b: "map_sum id (\<lambda>n. Scalar (NumV n)) (binary exact_ops ''+'' (Exact 0) (Exact 10))
             = Inr (Scalar (NumV (Exact 10)))"
    by code_simp
  from empty_cell_is_zero[where getCellValue = sheet_text and ref = "''C1''"
      and ops = exact_ops and refs = "[''A1'']" and right = "CellRef ''A1''"
      and r = "Scalar (NumV (Exact 10))" and refs' = "[''A1'', ''C1'']"
      and rightNum = "Exact 10" and operator = "''+''"] h e n
  show ?thesis unfolding z t s b by blast
qed

text \<open>
  Claim C1 as the specification words it fails: the formula that is a bare reference to an
  empty cell does produce the number 0, with the text \<open>0\<close>.
\<close>

theorem bare_empty_reference_is_zero:
  "evaluateFormula exact_ops (CellRef ''A1'') (\<lambda>r. None)
     = \<lparr>value = Some (Exact 0), text_of = Some ''0'', error = None, usedRefs = [''A1'']\<rparr>"
  by code_simp

text \<open>
  Claim C6 on a range beyond column Z. \<open>addressToRef\<close> keeps only \<open>col % 26\<close>, one letter, so
  the cells of \<open>AA1:AB1\<close> (columns 26 and 27) are recorded and read as \<open>A1\<close> and \<open>B1\<close>: the
  values come from the wrong cells, where \<open>addressToA1\<close> of lib/a1 gives \<open>AA1\<close> and \<open>AB1\<close>.
\<close>

definition sheet_AA :: "exact CellGetter" where
  "sheet_AA ref =
     (if ref = ''A1'' then Some (NumV (Exact 1))
      else if ref = ''B1'' then Some (NumV (Exact 2))
      else if ref = ''AA1'' then Some (NumV (Exact 10))
      else if ref = ''AB1'' then Some (NumV (Exact 20))
      else None)"

theorem range_beyond_Z_reads_wrong_cells:
  "evaluate exact_ops sheet_AA (RangeRef ''AA1'' ''AB1'') []
     = (Inr (Values [NumV (Exact 1), NumV (Exact 2)]), [''AA1'', ''AB1'', ''A1'', ''B1''])
   \<and> addressToA1 \<lparr>col = 26, row = 0\<rparr> = ''AA1''
   \<and> addressToRef \<lparr>col = 26, row = 0\<rparr> = ''A1''"
  by code_simp
























section \<open>Tokenizer and parser (lib/parser)\<close>

datatype TokenType =
  NUMBER | STRING | OPERATOR | LPAREN | RPAREN | COMMA | COLON | CELL_REF | IDENTIFIER | EOF

datatype Token = Token (type_of: TokenType) (value_of: string) (pos_of: nat)

datatype ParseError = ParseError string nat

fun TokenType_name :: "TokenType \<Rightarrow> string" where
  "TokenType_name NUMBER = ''NUMBER''"
| "TokenType_name STRING = ''STRING''"
| "TokenType_name OPERATOR = ''OPERATOR''"
| "TokenType_name LPAREN = ''LPAREN''"
| "TokenType_name RPAREN = ''RPAREN''"
| "TokenType_name COMMA = ''COMMA''"
| "TokenType_name COLON = ''COLON''"
| "TokenType_name CELL_REF = ''CELL_REF''"
| "TokenType_name IDENTIFIER = ''IDENTIFIER''"
| "TokenType_name EOF = ''EOF''"

definition trim :: "string \<Rightarrow> string" where
  "trim s = rev (dropWhile is_space (rev (dropWhile is_space s)))"

text \<open>
  The tokenizer state is the position \<open>pos\<close> and the rest of the input from there,
  \<open>input.substring(pos)\<close>. The readers return the text they consumed and what is left.
\<close>

fun readNumber_loop :: "bool \<Rightarrow> string \<Rightarrow> string \<times> string" where
  "readNumber_loop hasDecimal [] = ([], [])"
| "readNumber_loop hasDecimal (char # rest) =
     (if is_digit char then
        (case readNumber_loop hasDecimal rest of (v, r) \<Rightarrow> (char # v, r))
      else if char = CHR ''.'' \<and> \<not> hasDecimal then
        (case readNumber_loop True rest of (v, r) \<Rightarrow> (char # v, r))
      else ([], char # rest))"

definition readNumber :: "string \<Rightarrow> string \<times> string" where
  "readNumber input =
     (case input of
        char # rest \<Rightarrow>
          (if char = CHR ''-'' then
             (case readNumber_loop False rest of (v, r) \<Rightarrow> (char # v, r))
           else readNumber_loop False input)
      | [] \<Rightarrow> ([], []))"

text \<open>
  \<open>readString\<close> at an opening quote: the text up to the next quote and the rest after it,
  or \<open>Unterminated string\<close> at the position of the opening quote.
\<close>

definition readString :: "nat \<Rightarrow> string \<Rightarrow> ParseError + string \<times> string" where
  "readString start input =
     (let body = tl input;
          v = takeWhile (\<lambda>c. c \<noteq> CHR 0x22) body;
          r = dropWhile (\<lambda>c. c \<noteq> CHR 0x22) body
      in if r = [] then Inl (ParseError ''Unterminated string'' start) else Inr (v, tl r))"

text \<open>
  The match of \<open>/^(\$?)([A-Z]+)(\$?)(\d+)/i\<close> at the start of the rest of the input: the
  matched text. Each group is greedy and no shorter choice can make a failed match succeed.
\<close>

definition cellRef_prefix :: "string \<Rightarrow> string option" where
  "cellRef_prefix s =
     (let d1 = (if s \<noteq> [] \<and> hd s = CHR ''$'' then ''$'' else '''');
          s1 = drop (length d1) s;
          letters = takeWhile is_letter s1;
          s2 = dropWhile is_letter s1;
          d2 = (if s2 \<noteq> [] \<and> hd s2 = CHR ''$'' then ''$'' else '''');
          digits = takeWhile is_digit (drop (length d2) s2)
      in if letters \<noteq> [] \<and> digits \<noteq> [] then Some (d1 @ letters @ d2 @ digits) else None)"

definition is_ident_char :: "char \<Rightarrow> bool" where
  "is_ident_char c = (is_letter c \<or> is_digit c \<or> c = CHR ''_'')"

definition readIdentifierOrCellRef :: "nat \<Rightarrow> string \<Rightarrow> Token" where
  "readIdentifierOrCellRef start input =
     (case cellRef_prefix input of
        Some v \<Rightarrow> Token CELL_REF v start
      | None \<Rightarrow> Token IDENTIFIER (takeWhile is_ident_char input) start)"

text \<open>
  The loop of \<open>tokenize\<close>. On a \<open>$\<close> that starts no cell reference
  \<open>readIdentifierOrCellRef\<close> returns an empty identifier and does not advance, so the loop
  runs forever: the function is partial, \<open>None\<close> is "does not return".
\<close>

partial_function (option) tokenize_loop ::
  "nat \<Rightarrow> string \<Rightarrow> Token list \<Rightarrow> (ParseError + Token list) option" where
  "tokenize_loop pos input tokens =
     (case input of
        [] \<Rightarrow> Some (Inr (tokens @ [Token EOF '''' pos]))
      | char # rest \<Rightarrow>
          if is_space char then tokenize_loop (pos + 1) rest tokens
          else if is_digit char \<or> (char = CHR ''-'' \<and> rest \<noteq> [] \<and> is_digit (hd rest)) then
            (case readNumber input of
               (v, r) \<Rightarrow> tokenize_loop (pos + length v) r (tokens @ [Token NUMBER v pos]))
          else if char = CHR 0x22 then
            (case readString pos input of
               Inl e \<Rightarrow> Some (Inl e)
             | Inr (v, r) \<Rightarrow> tokenize_loop (pos + length v + 2) r (tokens @ [Token STRING v pos]))
          else if char \<in> set ''+-*/^'' then
            tokenize_loop (pos + 1) rest (tokens @ [Token OPERATOR [char] pos])
          else if char = CHR ''('' then
            tokenize_loop (pos + 1) rest (tokens @ [Token LPAREN [char] pos])
          else if char = CHR '')'' then
            tokenize_loop (pos + 1) rest (tokens @ [Token RPAREN [char] pos])
          else if char = CHR '','' then
            tokenize_loop (pos + 1) rest (tokens @ [Token COMMA [char] pos])
          else if char = CHR '':'' then
            tokenize_loop (pos + 1) rest (tokens @ [Token COLON [char] pos])
          else if char = CHR ''$'' \<or> is_letter char then
            (case readIdentifierOrCellRef pos input of
               token \<Rightarrow>
                 tokenize_loop (pos + length (value_of token)) (drop (length (value_of token)) input)
                   (tokens @ [token]))
          else Some (Inl (ParseError (''Unexpected character: '' @ [char]) pos)))"

declare tokenize_loop.simps [code]

definition tokenize :: "string \<Rightarrow> (ParseError + Token list) option" where
  "tokenize input = tokenize_loop 0 (trim input) []"

text \<open>
  The parser state is the index \<open>pos\<close> into the token array; the model passes the tokens from
  \<open>pos\<close> on and every parsing function returns, with its node, the number of tokens it
  consumed. The array ends with the \<open>EOF\<close> token, which is never consumed, so
  \<open>current()\<close> is the head of the remaining tokens; on an empty list it is the \<open>EOF\<close>
  token.
\<close>

definition current :: "Token list \<Rightarrow> Token" where
  "current ts = (case ts of [] \<Rightarrow> Token EOF '''' 0 | t # _ \<Rightarrow> t)"

text \<open>\<open>s.includes(v)\<close>: \<open>v\<close> occurs in \<open>s\<close>.\<close>

definition string_includes :: "string \<Rightarrow> string \<Rightarrow> bool" where
  "string_includes s v = list_ex (\<lambda>i. take (length v) (drop i s) = v) [0..<length s + 1]"

definition is_operator_in :: "string \<Rightarrow> Token \<Rightarrow> bool" where
  "is_operator_in s t = (type_of t = OPERATOR \<and> string_includes s (value_of t))"

text \<open>\<open>consume(expected)\<close> when the current token has another type.\<close>

definition expected_error :: "TokenType \<Rightarrow> Token \<Rightarrow> ParseError" where
  "expected_error expected t =
     ParseError (''Expected '' @ TokenType_name expected @ '', got '' @ TokenType_name (type_of t))
       (pos_of t)"

type_synonym 'n parsed = "ParseError + 'n ASTNode \<times> nat"

function (sequential) parseExpression :: "'n numops \<Rightarrow> Token list \<Rightarrow> 'n parsed"
  and parseExpression_loop :: "'n numops \<Rightarrow> 'n ASTNode \<Rightarrow> nat \<Rightarrow> Token list \<Rightarrow> 'n parsed"
  and parseTerm :: "'n numops \<Rightarrow> Token list \<Rightarrow> 'n parsed"
  and parseTerm_loop :: "'n numops \<Rightarrow> 'n ASTNode \<Rightarrow> nat \<Rightarrow> Token list \<Rightarrow> 'n parsed"
  and parseFactor :: "'n numops \<Rightarrow> Token list \<Rightarrow> 'n parsed"
  and parsePrimary :: "'n numops \<Rightarrow> Token list \<Rightarrow> 'n parsed"
  and parseArguments ::
    "'n numops \<Rightarrow> 'n ASTNode list \<Rightarrow> nat \<Rightarrow> Token list \<Rightarrow> ParseError + 'n ASTNode list \<times> nat"
  where
  "parseExpression ops ts =
     (case parseTerm ops ts of
        Inl e \<Rightarrow> Inl e
      | Inr (left, n) \<Rightarrow> parseExpression_loop ops left n (drop n ts))"
| "parseExpression_loop ops left n [] = Inr (left, n)"
| "parseExpression_loop ops left n (t # ts) =
     (if is_operator_in ''+-'' t then
        (case parseTerm ops ts of
           Inl e \<Rightarrow> Inl e
         | Inr (right, m) \<Rightarrow>
             parseExpression_loop ops (BinaryOp (value_of t) left right) (n + 1 + m) (drop m ts))
      else Inr (left, n))"
| "parseTerm ops ts =
     (case parseFactor ops ts of
        Inl e \<Rightarrow> Inl e
      | Inr (left, n) \<Rightarrow> parseTerm_loop ops left n (drop n ts))"
| "parseTerm_loop ops left n [] = Inr (left, n)"
| "parseTerm_loop ops left n (t # ts) =
     (if is_operator_in ''*/'' t then
        (case parseFactor ops ts of
           Inl e \<Rightarrow> Inl e
         | Inr (right, m) \<Rightarrow>
             parseTerm_loop ops (BinaryOp (value_of t) left right) (n + 1 + m) (drop m ts))
      else Inr (left, n))"
| "parseFactor ops ts =
     (case parsePrimary ops ts of
        Inl e \<Rightarrow> Inl e
      | Inr (left, n) \<Rightarrow>
          (case drop n ts of
             [] \<Rightarrow> Inr (left, n)
           | t # rest \<Rightarrow>
               (if type_of t = OPERATOR \<and> value_of t = ''^'' then
                  (case parseFactor ops rest of
                     Inl e \<Rightarrow> Inl e
                   | Inr (right, m) \<Rightarrow> Inr (BinaryOp ''^'' left right, n + 1 + m))
                else Inr (left, n))))"
| "parsePrimary ops [] = Inl (ParseError ''Unexpected token: '' 0)"
| "parsePrimary ops (token # ts) =
     (if type_of token = NUMBER then Inr (Number (parseFloat ops (value_of token)), 1)
      else if type_of token = STRING then Inr (String (value_of token), 1)
      else if type_of token = LPAREN then
        (case parseExpression ops ts of
           Inl e \<Rightarrow> Inl e
         | Inr (expr, n) \<Rightarrow>
             (if type_of (current (drop n ts)) \<noteq> RPAREN
              then Inl (expected_error RPAREN (current (drop n ts)))
              else Inr (expr, 1 + n + 1)))
      else if type_of token = CELL_REF then
        (if type_of (current ts) = COLON then
           (if type_of (current (tl ts)) \<noteq> CELL_REF
            then Inl (expected_error CELL_REF (current (tl ts)))
            else Inr (RangeRef (value_of token) (value_of (current (tl ts))), 3))
         else Inr (CellRef (value_of token), 1))
      else if type_of token = IDENTIFIER then
        (if type_of (current ts) = LPAREN then
           (case (if type_of (current (tl ts)) \<noteq> RPAREN
                  then (case parseExpression ops (tl ts) of
                          Inl e \<Rightarrow> Inl e
                        | Inr (arg, n) \<Rightarrow> parseArguments ops [arg] n (drop n (tl ts)))
                  else Inr ([], 0)) of
              Inl e \<Rightarrow> Inl e
            | Inr (args, n) \<Rightarrow>
                (if type_of (current (drop n (tl ts))) \<noteq> RPAREN
                 then Inl (expected_error RPAREN (current (drop n (tl ts))))
                 else Inr (FunctionCall (toUpperCase (value_of token)) args, 2 + n + 1)))
         else Inl (ParseError (''Unexpected identifier: '' @ value_of token) (pos_of token)))
      else Inl (ParseError (''Unexpected token: '' @ value_of token) (pos_of token)))"
| "parseArguments ops args n [] = Inr (args, n)"
| "parseArguments ops args n (t # ts) =
     (if type_of t = COMMA then
        (case parseExpression ops ts of
           Inl e \<Rightarrow> Inl e
         | Inr (arg, m) \<Rightarrow> parseArguments ops (args @ [arg]) (n + 1 + m) (drop m ts))
      else Inr (args, n))"

  by pat_completeness auto

lemma drop_Cons_shorter: "drop n ts = t # rest \<Longrightarrow> length rest < length ts"
proof -
  assume "drop n ts = t # rest"
  then have "length (drop n ts) = Suc (length rest)" by simp
  then show ?thesis by simp
qed

termination parseExpression
proof (relation "measures
    [case_sum
       (case_sum (\<lambda>(ops, ts). length ts)
          (case_sum (\<lambda>(ops, left, n, ts). length ts) (\<lambda>(ops, ts). length ts)))
       (case_sum
          (case_sum (\<lambda>(ops, left, n, ts). length ts) (\<lambda>(ops, ts). length ts))
          (case_sum (\<lambda>(ops, ts). length ts) (\<lambda>(ops, args, n, ts). length ts))),
     case_sum
       (case_sum (\<lambda>(ops, ts). 3)
          (case_sum (\<lambda>(ops, left, n, ts). 0) (\<lambda>(ops, ts). 2)))
       (case_sum
          (case_sum (\<lambda>(ops, left, n, ts). 0) (\<lambda>(ops, ts). Suc 0))
          (case_sum (\<lambda>(ops, ts). 0) (\<lambda>(ops, args, n, ts). 0)))]", goal_cases)
  case 1
  show ?case by auto
next
  case 2
  show ?case by auto
next
  case 3
  show ?case by auto
next
  case 4
  show ?case by auto
next
  case 5
  show ?case by auto
next
  case 6
  show ?case by auto
next
  case 7
  show ?case by auto
next
  case 8
  show ?case by auto
next
  case 9
  show ?case by auto
next
  case 10
  show ?case by auto
next
  case (11 ops ts b x y x21 x22)
  then show ?case by (simp add: drop_Cons_shorter)
next
  case 12
  show ?case by auto
next
  case 13
  show ?case by (simp add: less_Suc_eq_le)
next
  case 14
  show ?case by (simp add: less_Suc_eq_le)
next
  case 15
  show ?case by auto
next
  case 16
  show ?case by auto
qed

definition parse :: "'n numops \<Rightarrow> Token list \<Rightarrow> ParseError + 'n ASTNode" where
  "parse ops tokens =
     (case parseExpression ops tokens of
        Inl e \<Rightarrow> Inl e
      | Inr (result, n) \<Rightarrow>
          (let t = current (drop n tokens)
           in if type_of t \<noteq> EOF
              then Inl (ParseError (''Unexpected token: '' @ value_of t) (pos_of t))
              else Inr result))"

definition startsWith_eq :: "string \<Rightarrow> bool" where
  "startsWith_eq s = (s \<noteq> [] \<and> hd s = CHR ''='')"

definition cleanFormula :: "string \<Rightarrow> string" where
  "cleanFormula formula =
     (if startsWith_eq (trim formula) then tl (trim formula) else trim formula)"

text \<open>
  \<open>parseFormula\<close>: a \<open>ParseError\<close> of the tokenizer or of the parser is \<open>Inl\<close>; \<open>None\<close>
  when the tokenizer does not return.
\<close>

definition parseFormula :: "'n numops \<Rightarrow> string \<Rightarrow> (ParseError + 'n ASTNode) option" where
  "parseFormula ops formula =
     (case tokenize (cleanFormula formula) of
        None \<Rightarrow> None
      | Some (Inl e) \<Rightarrow> Some (Inl e)
      | Some (Inr tokens) \<Rightarrow> Some (parse ops tokens))"

section \<open>Fill adjustment (lib/fill)\<close>


text \<open>\<open>opPrecedence[op] || 0\<close>.\<close>

definition opPrecedence :: "string \<Rightarrow> nat" where
  "opPrecedence operator =
     (if operator = ''^'' then 3
      else if operator = ''*'' \<or> operator = ''/'' then 2
      else if operator = ''+'' \<or> operator = ''-'' then 1
      else 0)"

fun needsParentheses :: "'n ASTNode \<Rightarrow> string \<Rightarrow> bool" where
  "needsParentheses (BinaryOp operator left right) parentOp =
     (opPrecedence operator < opPrecedence parentOp)"
| "needsParentheses operand parentOp = False"

text \<open>\<open>xs.join(',')\<close>.\<close>

fun join_comma :: "string list \<Rightarrow> string" where
  "join_comma [] = []"
| "join_comma [x] = x"
| "join_comma (x # y # ys) = x @ '','' @ join_comma (y # ys)"

fun astToString :: "'n numops \<Rightarrow> 'n ASTNode \<Rightarrow> string" where
  "astToString ops (Number v) = toString ops v"
| "astToString ops (String v) = [CHR 0x22] @ v @ [CHR 0x22]"
| "astToString ops (CellRef cellRef) = cellRef"
| "astToString ops (RangeRef start end) = start @ '':'' @ end"
| "astToString ops (BinaryOp operator left right) =
     (let l = astToString ops left;
          r = astToString ops right;
          leftStr = (if needsParentheses left operator then ''('' @ l @ '')'' else l);
          rightStr = (if needsParentheses right operator then ''('' @ r @ '')'' else r)
      in leftStr @ operator @ rightStr)"
| "astToString ops (UnaryOp operator operand) = operator @ astToString ops operand"
| "astToString ops (FunctionCall name args) =
     name @ ''('' @ join_comma (map (astToString ops) args) @ '')''"


declare colToLetter_loop.simps [simp del]

declare nat_digits.simps [simp del]



lemma fromCharCode_charCode: "fromCharCode (charCode c) = c"
  by (simp add: fromCharCode_def charCode_def)

lemma fromCharCode_shift:
  "0 \<le> k \<Longrightarrow> k \<le> charCode c \<Longrightarrow> fromCharCode (k + (charCode c - k)) = c"
  by (simp add: fromCharCode_charCode)
























text \<open>
  Claim C3 on \<open>A1-(B1-C1)\<close> and on \<open>5 - 3\<close>. The renderer parenthesises an operand only when
  its operator has a lower precedence than the parent's, so the right operand \<open>B1-C1\<close> of
  \<open>-\<close> loses its parentheses and the rendering \<open>A1-B1-C1\<close> parses as \<open>(A1-B1)-C1\<close>. It also
  writes no blank around an operator, so \<open>5 - 3\<close> is rendered as \<open>5-3\<close>, which the tokenizer
  reads as the two numbers \<open>5\<close> and \<open>-3\<close> and the parser rejects.
\<close>

theorem render_then_parse_differs:
  "parseFormula exact_ops ''A1-(B1-C1)''
     = Some (Inr (BinaryOp ''-'' (CellRef ''A1'') (BinaryOp ''-'' (CellRef ''B1'') (CellRef ''C1''))))
   \<and> astToString exact_ops
        (BinaryOp ''-'' (CellRef ''A1'') (BinaryOp ''-'' (CellRef ''B1'') (CellRef ''C1'')))
     = ''A1-B1-C1''
   \<and> parseFormula exact_ops ''A1-B1-C1''
     = Some (Inr (BinaryOp ''-'' (BinaryOp ''-'' (CellRef ''A1'') (CellRef ''B1'')) (CellRef ''C1'')))
   \<and> parseFormula exact_ops ''5 - 3''
     = Some (Inr (BinaryOp ''-'' (Number (Exact 5)) (Number (Exact 3))))
   \<and> astToString exact_ops (BinaryOp ''-'' (Number (Exact 5)) (Number (Exact 3))) = ''5-3''
   \<and> parseFormula exact_ops ''5-3'' = Some (Inl (ParseError ''Unexpected token: -3'' 1))"
  by code_simp

section \<open>Negative literals and subtraction\<close>

text \<open>
  The tokens an operand can end with, and a token list in which a number follows such a
  token directly.
\<close>

definition operand_end :: "Token \<Rightarrow> bool" where
  "operand_end t = (type_of t = NUMBER \<or> type_of t = STRING \<or> type_of t = CELL_REF
                    \<or> type_of t = RPAREN)"

fun adjacent_operands :: "Token list \<Rightarrow> bool" where
  "adjacent_operands (a # b # ts) =
     (if operand_end a \<and> type_of b = NUMBER then True else adjacent_operands (b # ts))"
| "adjacent_operands ts = False"

definition no_eof :: "Token list \<Rightarrow> bool" where
  "no_eof ts = list_all (\<lambda>t. type_of t \<noteq> EOF) ts"

text \<open>What a successful parsing function has consumed, and what a loop has added to it.\<close>

definition operand_tokens :: "Token list \<Rightarrow> bool" where
  "operand_tokens xs =
     (xs \<noteq> [] \<and> \<not> adjacent_operands xs \<and> operand_end (last xs) \<and> no_eof xs)"

definition continuation_tokens :: "Token list \<Rightarrow> bool" where
  "continuation_tokens xs =
     (xs = [] \<or> (operand_tokens xs \<and> type_of (hd xs) \<noteq> NUMBER))"

lemma adjacent_operands_append:
  "adjacent_operands (xs @ ys) \<longleftrightarrow>
     adjacent_operands xs \<or> adjacent_operands ys
     \<or> (xs \<noteq> [] \<and> ys \<noteq> [] \<and> operand_end (last xs) \<and> type_of (hd ys) = NUMBER)"
proof (induction xs)
  case Nil
  show ?case by simp
next
  case step: (Cons a xs)
  show ?case
  proof (cases xs)
    case Nil
    then show ?thesis by (cases ys) auto
  next
    case (Cons b zs)
    then show ?thesis using step.IH by auto
  qed
qed

lemma no_eof_append [simp]: "no_eof (xs @ ys) \<longleftrightarrow> no_eof xs \<and> no_eof ys"
  by (simp add: no_eof_def)

lemma operand_then_continuation:
  "operand_tokens xs \<Longrightarrow> continuation_tokens ys \<Longrightarrow> operand_tokens (xs @ ys)"
  by (cases "ys = []") (auto simp: operand_tokens_def continuation_tokens_def adjacent_operands_append)

lemma continuation_then_continuation:
  "continuation_tokens xs \<Longrightarrow> continuation_tokens ys \<Longrightarrow> continuation_tokens (xs @ ys)"
  by (cases "xs = []"; cases "ys = []")
     (auto simp: operand_tokens_def continuation_tokens_def adjacent_operands_append)

lemma separator_then_operand:
  assumes "\<not> operand_end t" and "type_of t \<noteq> EOF" and "operand_tokens xs"
  shows "operand_tokens (t # xs)"
proof -
  have "adjacent_operands ([t] @ xs) = adjacent_operands xs"
    using assms by (simp only: adjacent_operands_append) (simp add: operand_tokens_def)
  then show ?thesis using assms by (auto simp: operand_tokens_def no_eof_def)
qed

lemma operand_then_RPAREN:
  assumes "operand_tokens xs" and "type_of t = RPAREN"
  shows "operand_tokens (xs @ [t])"
  using assms by (auto simp: operand_tokens_def adjacent_operands_append operand_end_def no_eof_def)

lemma take_add_append: "take (n + k) ts = take n ts @ take k (drop n ts)"
  by (simp add: take_add)

lemma current_type_Cons:
  "type_of (current ts) = ty \<Longrightarrow> ty \<noteq> EOF \<Longrightarrow> \<exists>t rest. ts = t # rest \<and> type_of t = ty"
  by (cases ts) (auto simp: current_def)

lemma is_operator_in_type: "is_operator_in s t \<Longrightarrow> type_of t = OPERATOR"
  by (simp add: is_operator_in_def)

definition consumes_operand :: "Token list \<Rightarrow> nat \<Rightarrow> bool" where
  "consumes_operand ts n = (n \<le> length ts \<and> operand_tokens (take n ts))"

definition consumes_more :: "Token list \<Rightarrow> nat \<Rightarrow> nat \<Rightarrow> bool" where
  "consumes_more ts n0 n =
     (\<exists>k. n = n0 + k \<and> k \<le> length ts \<and> continuation_tokens (take k ts))"

lemma take_Suc_drop: "drop m ts = r # rest \<Longrightarrow> take (Suc m) ts = take m ts @ [r]"
proof -
  assume d: "drop m ts = r # rest"
  have "take (m + 1) ts = take m ts @ take 1 (drop m ts)" by (rule take_add)
  then show ?thesis by (simp add: d)
qed

lemma consumes_more_refl: "consumes_more ts n n"
  by (auto simp: consumes_more_def continuation_tokens_def intro: exI[of _ 0])

lemma consumes_operand_more:
  assumes "consumes_operand ts m" and "consumes_more (drop m ts) m n"
  shows "consumes_operand ts n"
proof -
  from assms(2) obtain k where k: "n = m + k" "k \<le> length (drop m ts)"
    "continuation_tokens (take k (drop m ts))"
    by (auto simp: consumes_more_def)
  have "take n ts = take m ts @ take k (drop m ts)"
    by (simp add: k(1) take_add)
  moreover have "operand_tokens (take m ts @ take k (drop m ts))"
    using assms(1) k(3) by (simp add: consumes_operand_def operand_then_continuation)
  moreover have "n \<le> length ts"
    using assms(1) k by (auto simp: consumes_operand_def)
  ultimately show ?thesis by (simp add: consumes_operand_def)
qed

lemma separator_continuation:
  assumes "\<not> operand_end t" and "type_of t \<noteq> EOF" and "type_of t \<noteq> NUMBER"
    and "operand_tokens xs"
  shows "continuation_tokens (t # xs)"
  using separator_then_operand[OF assms(1,2,4)] assms(3)
  by (simp add: continuation_tokens_def)

lemma consumes_more_step:
  assumes "\<not> operand_end t" and "type_of t \<noteq> EOF" and "type_of t \<noteq> NUMBER"
    and "consumes_operand ts m" and "consumes_more (drop m ts) (n0 + 1 + m) n"
  shows "consumes_more (t # ts) n0 n"
proof -
  from assms(5) obtain k where k: "n = n0 + 1 + m + k" "k \<le> length (drop m ts)"
    "continuation_tokens (take k (drop m ts))"
    by (auto simp: consumes_more_def)
  have m: "m \<le> length ts" and o: "operand_tokens (take m ts)"
    using assms(4) by (simp_all add: consumes_operand_def)
  have "operand_tokens (take m ts @ take k (drop m ts))"
    using o k(3) by (rule operand_then_continuation)
  then have "continuation_tokens (t # take m ts @ take k (drop m ts))"
    using assms(1-3) by (simp add: separator_continuation)
  moreover have "take (1 + m + k) (t # ts) = t # take m ts @ take k (drop m ts)"
    by (simp add: take_add)
  moreover have "1 + m + k \<le> length (t # ts)" using m k(2) by simp
  ultimately show ?thesis
    unfolding consumes_more_def using k(1) by (intro exI[of _ "1 + m + k"]) simp
qed

lemma consumes_single:
  assumes "operand_end token" and "type_of token \<noteq> EOF"
  shows "consumes_operand (token # ts) (Suc 0)"
  using assms by (simp add: consumes_operand_def operand_tokens_def no_eof_def)

lemma consumes_power:
  assumes "consumes_operand ts m" and "drop m ts = t # rest" and "type_of t = OPERATOR"
    and "consumes_operand rest k"
  shows "consumes_operand ts (m + 1 + k)"
proof -
  have "continuation_tokens (t # take k rest)"
    by (rule separator_continuation)
       (use assms(3,4) in \<open>simp_all add: operand_end_def consumes_operand_def\<close>)
  moreover have "take (1 + k) (drop m ts) = t # take k rest"
    by (simp add: assms(2))
  moreover have "1 + k \<le> length (drop m ts)"
    using assms(4) by (simp add: assms(2) consumes_operand_def)
  ultimately have "consumes_more (drop m ts) m (m + 1 + k)"
    unfolding consumes_more_def by (intro exI[of _ "1 + k"]) simp
  with assms(1) show ?thesis by (rule consumes_operand_more)
qed

lemma consumes_parenthesised:
  assumes "type_of token = LPAREN" and "consumes_operand ts m"
    and "type_of (current (drop m ts)) = RPAREN"
  shows "consumes_operand (token # ts) (1 + m + 1)"
proof -
  from current_type_Cons[OF assms(3)] obtain r rest where
    r: "drop m ts = r # rest" "type_of r = RPAREN" by auto
  have m: "m \<le> length ts" and o: "operand_tokens (take m ts)"
    using assms(2) by (simp_all add: consumes_operand_def)
  have "length (drop m ts) = Suc (length rest)" by (simp add: r(1))
  then have len: "m + 1 \<le> length ts" by simp
  have "take (m + 1) ts = take m ts @ [r]"
    using take_Suc_drop[OF r(1)] by simp
  moreover have "operand_tokens (take m ts @ [r])"
    using o r(2) by (rule operand_then_RPAREN)
  ultimately have "operand_tokens (token # take (m + 1) ts)"
    by (intro separator_then_operand) (use assms(1) in \<open>simp_all add: operand_end_def\<close>)
  then show ?thesis using len by (simp add: consumes_operand_def)
qed

lemma consumes_range:
  assumes "type_of token = CELL_REF" and "type_of (current ts) = COLON"
    and "type_of (current (tl ts)) = CELL_REF"
  shows "consumes_operand (token # ts) 3"
proof -
  from current_type_Cons[OF assms(2)] obtain c ts' where
    c: "ts = c # ts'" "type_of c = COLON" by auto
  from assms(3) c(1) have "type_of (current ts') = CELL_REF" by simp
  from current_type_Cons[OF this] obtain e ts'' where
    e: "ts' = e # ts''" "type_of e = CELL_REF" by auto
  have "take 3 (token # ts) = [token, c, e]"
    by (simp add: c(1) e(1) numeral_3_eq_3)
  moreover have "operand_tokens [token, c, e]"
    using assms(1) c(2) e(2) by (simp add: operand_tokens_def operand_end_def no_eof_def)
  ultimately show ?thesis by (simp add: consumes_operand_def c(1) e(1))
qed

lemma consumes_call:
  assumes "type_of token = IDENTIFIER" and "type_of (current ts) = LPAREN"
    and "n = 0 \<or> consumes_operand (tl ts) n"
    and "type_of (current (drop n (tl ts))) = RPAREN"
  shows "consumes_operand (token # ts) (2 + n + 1)"
proof -
  from current_type_Cons[OF assms(2)] obtain l ts' where
    l: "ts = l # ts'" "type_of l = LPAREN" by auto
  from assms(4) l(1) have "type_of (current (drop n ts')) = RPAREN" by simp
  from current_type_Cons[OF this] obtain r rest where
    r: "drop n ts' = r # rest" "type_of r = RPAREN" by auto
  have "length (drop n ts') = Suc (length rest)" by (simp add: r(1))
  then have len: "n + 1 \<le> length ts'" by simp
  have t: "take (n + 1) ts' = take n ts' @ [r]"
    using take_Suc_drop[OF r(1)] by simp
  have lo: "operand_tokens (l # take n ts' @ [r])"
  proof (cases "n = 0")
    case True
    then show ?thesis using l(2) r(2)
      by (simp add: operand_tokens_def operand_end_def no_eof_def)
  next
    case False
    then have "operand_tokens (take n ts')"
      using assms(3) l(1) by (simp add: consumes_operand_def)
    then have "operand_tokens (take n ts' @ [r])" using r(2) by (rule operand_then_RPAREN)
    then show ?thesis
      by (intro separator_then_operand) (use l(2) in \<open>simp_all add: operand_end_def\<close>)
  qed
  have "operand_tokens (token # l # take n ts' @ [r])"
    by (rule separator_then_operand) (use assms(1) lo in \<open>simp_all add: operand_end_def\<close>)
  moreover have "take (2 + n + 1) (token # ts) = token # l # take n ts' @ [r]"
    using t by (simp add: l(1))
  ultimately show ?thesis using len by (simp add: consumes_operand_def l(1))
qed

lemma parser_consumes:
  "(\<forall>ast n. parseExpression ops ts = Inr (ast, n) \<longrightarrow> consumes_operand ts n)"
  "(\<forall>ast n. parseExpression_loop ops left n0 ts1 = Inr (ast, n) \<longrightarrow> consumes_more ts1 n0 n)"
  "(\<forall>ast n. parseTerm ops ts2 = Inr (ast, n) \<longrightarrow> consumes_operand ts2 n)"
  "(\<forall>ast n. parseTerm_loop ops left1 n1 ts3 = Inr (ast, n) \<longrightarrow> consumes_more ts3 n1 n)"
  "(\<forall>ast n. parseFactor ops ts4 = Inr (ast, n) \<longrightarrow> consumes_operand ts4 n)"
  "(\<forall>ast n. parsePrimary ops ts5 = Inr (ast, n) \<longrightarrow> consumes_operand ts5 n)"
  "(\<forall>as n. parseArguments ops args n2 ts6 = Inr (as, n) \<longrightarrow> consumes_more ts6 n2 n)"
proof (induction ops ts and ops left n0 ts1 and ops ts2 and ops left1 n1 ts3 and ops ts4
         and ops ts5 and ops args n2 ts6
       rule: parseExpression_parseExpression_loop_parseTerm_parseTerm_loop_parseFactor_parsePrimary_parseArguments.induct)
  case (1 ops ts)
  show ?case
  proof (intro allI impI)
    fix ast n
    assume a: "parseExpression ops ts = Inr (ast, n)"
    then obtain left m where t: "parseTerm ops ts = Inr (left, m)"
      and l: "parseExpression_loop ops left m (drop m ts) = Inr (ast, n)"
      by (auto split: sum.splits)
    have "consumes_operand ts m" using 1(1) t by blast
    moreover have "consumes_more (drop m ts) m n" using 1(2)[OF t refl] l by blast
    ultimately show "consumes_operand ts n" by (rule consumes_operand_more)
  qed
next
  case (2 ops left n)
  show ?case by (simp add: consumes_more_refl)
next
  case (3 ops left n0 t ts)
  show ?case
  proof (intro allI impI)
    fix ast n
    assume a: "parseExpression_loop ops left n0 (t # ts) = Inr (ast, n)"
    show "consumes_more (t # ts) n0 n"
    proof (cases "is_operator_in ''+-'' t")
      case False
      with a show ?thesis by (simp add: consumes_more_refl)
    next
      case True
      with a obtain right m where p: "parseTerm ops ts = Inr (right, m)"
        and l: "parseExpression_loop ops (BinaryOp (value_of t) left right) (n0 + 1 + m) (drop m ts)
                  = Inr (ast, n)"
        by (auto split: sum.splits)
      have ty: "type_of t = OPERATOR" using True by (rule is_operator_in_type)
      have "consumes_operand ts m" using 3(1)[OF True] p by blast
      moreover have "consumes_more (drop m ts) (n0 + 1 + m) n"
        using 3(2)[OF True p refl] l by blast
      ultimately show ?thesis
        using ty by (intro consumes_more_step) (simp_all add: operand_end_def)
    qed
  qed
next
  case (4 ops ts)
  show ?case
  proof (intro allI impI)
    fix ast n
    assume a: "parseTerm ops ts = Inr (ast, n)"
    then obtain left m where t: "parseFactor ops ts = Inr (left, m)"
      and l: "parseTerm_loop ops left m (drop m ts) = Inr (ast, n)"
      by (auto split: sum.splits)
    have "consumes_operand ts m" using 4(1) t by blast
    moreover have "consumes_more (drop m ts) m n" using 4(2)[OF t refl] l by blast
    ultimately show "consumes_operand ts n" by (rule consumes_operand_more)
  qed
next
  case (5 ops left n)
  show ?case by (simp add: consumes_more_refl)
next
  case (6 ops left n0 t ts)
  show ?case
  proof (intro allI impI)
    fix ast n
    assume a: "parseTerm_loop ops left n0 (t # ts) = Inr (ast, n)"
    show "consumes_more (t # ts) n0 n"
    proof (cases "is_operator_in ''*/'' t")
      case False
      with a show ?thesis by (simp add: consumes_more_refl)
    next
      case True
      with a obtain right m where p: "parseFactor ops ts = Inr (right, m)"
        and l: "parseTerm_loop ops (BinaryOp (value_of t) left right) (n0 + 1 + m) (drop m ts)
                  = Inr (ast, n)"
        by (auto split: sum.splits)
      have ty: "type_of t = OPERATOR" using True by (rule is_operator_in_type)
      have "consumes_operand ts m" using 6(1)[OF True] p by blast
      moreover have "consumes_more (drop m ts) (n0 + 1 + m) n"
        using 6(2)[OF True p refl] l by blast
      ultimately show ?thesis
        using ty by (intro consumes_more_step) (simp_all add: operand_end_def)
    qed
  qed
next
  case (7 ops ts)
  show ?case
  proof (intro allI impI)
    fix ast n
    assume a: "parseFactor ops ts = Inr (ast, n)"
    then obtain left m where p: "parsePrimary ops ts = Inr (left, m)"
      by (auto split: sum.splits)
    have cm: "consumes_operand ts m" using 7(1) p by blast
    show "consumes_operand ts n"
    proof (cases "drop m ts")
      case Nil
      with a p have "n = m" by simp
      with cm show ?thesis by simp
    next
      case (Cons t rest)
      show ?thesis
      proof (cases "type_of t = OPERATOR \<and> value_of t = ''^''")
        case False
        with a p Cons have "n = m" by auto
        with cm show ?thesis by simp
      next
        case True
        with a p Cons obtain right k where f: "parseFactor ops rest = Inr (right, k)"
          and n: "n = m + 1 + k"
          by (auto split: sum.splits)
        have "consumes_operand rest k" using 7(2)[OF p refl Cons True] f by blast
        with cm Cons True show ?thesis unfolding n by (intro consumes_power) auto
      qed
    qed
  qed
next
  case (8 ops)
  show ?case by simp
next
  case (9 ops token ts)
  show ?case
  proof (intro allI impI)
    fix ast n
    assume a: "parsePrimary ops (token # ts) = Inr (ast, n)"
    consider (num) "type_of token = NUMBER" | (str) "type_of token = STRING"
      | (par) "type_of token = LPAREN" | (ref) "type_of token = CELL_REF"
      | (idt) "type_of token = IDENTIFIER"
      | (other) "type_of token \<notin> {NUMBER, STRING, LPAREN, CELL_REF, IDENTIFIER}"
      by auto
    then show "consumes_operand (token # ts) n"
    proof cases
      case num
      with a have "n = 1" by simp
      then show ?thesis using num by (simp add: consumes_single operand_end_def)
    next
      case str
      with a have "n = 1" by simp
      then show ?thesis using str by (simp add: consumes_single operand_end_def)
    next
      case par
      with a obtain expr m where e: "parseExpression ops ts = Inr (expr, m)"
        and r: "type_of (current (drop m ts)) = RPAREN" and n: "n = 1 + m + 1"
        by (auto split: sum.splits if_splits)
      have "consumes_operand ts m" using 9(1) par e by simp
      with par r show ?thesis unfolding n by (intro consumes_parenthesised)
    next
      case ref
      show ?thesis
      proof (cases "type_of (current ts) = COLON")
        case True
        with a ref have "type_of (current (tl ts)) = CELL_REF" and "n = 3"
          by (auto split: if_splits)
        with ref True show ?thesis by (simp add: consumes_range)
      next
        case False
        with a ref have "n = 1" by simp
        then show ?thesis using ref by (simp add: consumes_single operand_end_def)
      qed
    next
      case idt
      with a have lp: "type_of (current ts) = LPAREN"
        by (auto split: if_splits)
      show ?thesis
      proof (cases "type_of (current (tl ts)) \<noteq> RPAREN")
        case False
        with a idt lp have n: "n = 2 + 0 + 1"
          and r: "type_of (current (drop 0 (tl ts))) = RPAREN"
          by (auto split: if_splits)
        have "consumes_operand (token # ts) (2 + 0 + 1)"
          using idt lp _ r by (rule consumes_call) simp
        then show ?thesis by (simp only: n)
      next
        case True
        with a idt lp obtain arg m as k where e: "parseExpression ops (tl ts) = Inr (arg, m)"
          and p: "parseArguments ops [arg] m (drop m (tl ts)) = Inr (as, k)"
          and r: "type_of (current (drop k (tl ts))) = RPAREN" and n: "n = 2 + k + 1"
          by (auto split: sum.splits if_splits)
        have nn: "type_of token \<noteq> NUMBER" "type_of token \<noteq> STRING"
          "type_of token \<noteq> LPAREN" "type_of token \<noteq> CELL_REF"
          using idt by simp_all
        have "consumes_operand (tl ts) m" using 9(2)[OF nn idt lp True] e by blast
        moreover have "consumes_more (drop m (tl ts)) m k"
          using 9(3)[OF nn idt lp True e refl] p by blast
        ultimately have "consumes_operand (tl ts) k" by (rule consumes_operand_more)
        with idt lp r show ?thesis unfolding n by (intro consumes_call) simp_all
      qed
    next
      case other
      with a show ?thesis by simp
    qed
  qed
next
  case (10 ops args n)
  show ?case by (simp add: consumes_more_refl)
next
  case (11 ops args n0 t ts)
  show ?case
  proof (intro allI impI)
    fix as n
    assume a: "parseArguments ops args n0 (t # ts) = Inr (as, n)"
    show "consumes_more (t # ts) n0 n"
    proof (cases "type_of t = COMMA")
      case False
      with a show ?thesis by (simp add: consumes_more_refl)
    next
      case True
      with a obtain arg m where p: "parseExpression ops ts = Inr (arg, m)"
        and l: "parseArguments ops (args @ [arg]) (n0 + 1 + m) (drop m ts) = Inr (as, n)"
        by (auto split: sum.splits)
      have "consumes_operand ts m" using 11(1)[OF True] p by blast
      moreover have "consumes_more (drop m ts) (n0 + 1 + m) n"
        using 11(2)[OF True p refl] l by blast
      ultimately show ?thesis
        using True by (intro consumes_more_step) (simp_all add: operand_end_def)
    qed
  qed
qed

lemma parse_success_consumes:
  assumes "parse ops ts = Inr ast"
  shows "\<exists>n. consumes_operand ts n \<and> type_of (current (drop n ts)) = EOF"
proof -
  from assms obtain result n where p: "parseExpression ops ts = Inr (result, n)"
    and e: "type_of (current (drop n ts)) = EOF"
    by (auto simp: parse_def Let_def split: sum.splits if_splits)
  from parser_consumes(1)[of ops ts] p have "consumes_operand ts n" by blast
  with e show ?thesis by blast
qed

text \<open>What the tokenizer returns: the tokens it had, more tokens, and one final \<open>EOF\<close>.\<close>

definition tokenizer_output :: "Token list \<Rightarrow> Token list \<Rightarrow> bool" where
  "tokenizer_output tokens ts =
     (\<exists>body p. ts = tokens @ body @ [Token EOF '''' p] \<and> no_eof body)"

lemma tokenizer_output_step:
  "type_of t \<noteq> EOF \<Longrightarrow> tokenizer_output (tokens @ [t]) ts \<Longrightarrow> tokenizer_output tokens ts"
proof -
  assume t: "type_of t \<noteq> EOF" and "tokenizer_output (tokens @ [t]) ts"
  then obtain body p where "ts = (tokens @ [t]) @ body @ [Token EOF '''' p]" "no_eof body"
    by (auto simp: tokenizer_output_def)
  then have "ts = tokens @ (t # body) @ [Token EOF '''' p]" "no_eof (t # body)"
    using t by (simp_all add: no_eof_def)
  then show ?thesis unfolding tokenizer_output_def by blast
qed

lemma readIdentifierOrCellRef_type:
  "type_of (readIdentifierOrCellRef pos input) \<noteq> EOF"
  by (simp add: readIdentifierOrCellRef_def split: option.splits)

lemma tokenize_loop_output:
  "tokenize_loop pos input tokens = Some (Inr ts) \<Longrightarrow> tokenizer_output tokens ts"
proof -
  have "\<forall>ts. y = Inr ts \<longrightarrow> tokenizer_output tokens ts"
    if run: "tokenize_loop pos input tokens = Some y" for y
  proof (rule tokenize_loop.raw_induct[where P = "\<lambda>pos input tokens y.
            \<forall>ts. y = Inr ts \<longrightarrow> tokenizer_output tokens ts"], goal_cases)
    case (1 f pos input tokens y)
    note IH = 1(1) and step = 1(2)
    show ?case
    proof (intro allI impI)
      fix ts
      assume y: "y = Inr ts"
      show "tokenizer_output tokens ts"
      proof (cases input)
        case Nil
        with step y have "ts = tokens @ [] @ [Token EOF '''' pos]" by simp
        then show ?thesis
          unfolding tokenizer_output_def
          by (intro exI[of _ "[]"] exI[of _ pos] conjI) (simp_all add: no_eof_def)
      next
        case (Cons char rest)
        note out = IH[rule_format, OF _ y]
        show ?thesis
        proof (cases "is_space char")
          case True
          with step Cons have "f (pos + 1) rest tokens = Some y" by simp
          then show ?thesis by (rule out)
        next
          case c1: False
          show ?thesis
          proof (cases "is_digit char \<or> (char = CHR ''-'' \<and> rest \<noteq> [] \<and> is_digit (hd rest))")
            case True
            obtain v r where vr: "readNumber input = (v, r)" by (cases "readNumber input")
            from step True c1 have "f (pos + length v) r (tokens @ [Token NUMBER v pos]) = Some y"
              unfolding Cons list.case by (simp add: vr[unfolded Cons])
            then have "tokenizer_output (tokens @ [Token NUMBER v pos]) ts" by (rule out)
            then show ?thesis by (rule tokenizer_output_step[rotated]) simp
          next
            case c2: False
            show ?thesis
            proof (cases "char = CHR 0x22")
              case True
              with step c1 c2 obtain v r where
                "f (pos + length v + 2) r (tokens @ [Token STRING v pos]) = Some y"
                unfolding Cons list.case using y by (auto split: sum.splits)
              then have "tokenizer_output (tokens @ [Token STRING v pos]) ts" by (rule out)
              then show ?thesis by (rule tokenizer_output_step[rotated]) simp
            next
              case c3: False
              show ?thesis
              proof (cases "char \<in> set ''+-*/^'' \<or> char = CHR ''('' \<or> char = CHR '')''
                            \<or> char = CHR '','' \<or> char = CHR '':''")
                case True
                with step c1 c2 c3 obtain ty where
                  "f (pos + 1) rest (tokens @ [Token ty [char] pos]) = Some y" and "ty \<noteq> EOF"
                  unfolding Cons list.case by (auto split: if_splits)
                then have "tokenizer_output (tokens @ [Token ty [char] pos]) ts"
                  and "type_of (Token ty [char] pos) \<noteq> EOF"
                  by (simp_all add: out)
                then show ?thesis by (rule tokenizer_output_step[rotated])
              next
                case c4: False
                show ?thesis
                proof (cases "char = CHR ''$'' \<or> is_letter char")
                  case True
                  define t where "t = readIdentifierOrCellRef pos (char # rest)"
                  from step c1 c2 c3 c4 True
                  have "f (pos + length (value_of t)) (drop (length (value_of t)) (char # rest))
                          (tokens @ [t]) = Some y"
                    unfolding Cons list.case t_def by simp
                  then have "tokenizer_output (tokens @ [t]) ts" by (rule out)
                  then show ?thesis
                    by (rule tokenizer_output_step[rotated])
                       (simp add: t_def readIdentifierOrCellRef_type)
                next
                  case False
                  with step c1 c2 c3 c4 y show ?thesis
                    unfolding Cons list.case by simp
                qed
              qed
            qed
          qed
        qed
      qed
    qed
  next
    show "tokenize_loop pos input tokens = Some y" by (rule run)
  qed
  then show "tokenize_loop pos input tokens = Some (Inr ts) \<Longrightarrow> tokenizer_output tokens ts"
    by blast
qed

lemma tokens_adjacent_rejected:
  assumes out: "tokenizer_output [] ts" and adj: "adjacent_operands ts"
  shows "\<exists>e. parse ops ts = Inl e"
proof (cases "parse ops ts")
  case (Inl e)
  then show ?thesis by blast
next
  case (Inr ast)
  from out obtain body p where ts: "ts = body @ [Token EOF '''' p]" and nb: "no_eof body"
    by (auto simp: tokenizer_output_def)
  from parse_success_consumes[OF Inr] obtain n where
    c: "consumes_operand ts n" and e: "type_of (current (drop n ts)) = EOF"
    by blast
  from c have n: "n \<le> length ts" and o: "operand_tokens (take n ts)"
    by (simp_all add: consumes_operand_def)
  have "n \<le> length body"
  proof (rule ccontr)
    assume "\<not> n \<le> length body"
    with n have "take n ts = ts" by (simp add: ts)
    with o have "no_eof ts" by (simp add: operand_tokens_def)
    then show False by (simp add: ts no_eof_def)
  qed
  moreover have "\<not> n < length body"
  proof
    assume l: "n < length body"
    then have "drop n ts = body ! n # drop (Suc n) body @ [Token EOF '''' p]"
      by (simp add: ts Cons_nth_drop_Suc)
    then have "current (drop n ts) = body ! n" by (simp add: current_def)
    moreover have "type_of (body ! n) \<noteq> EOF"
      using nb l by (simp add: no_eof_def list_all_length)
    ultimately show False using e by simp
  qed
  ultimately have "n = length body" by simp
  then have "take n ts = body" by (simp add: ts)
  with o have "\<not> adjacent_operands body" by (simp add: operand_tokens_def)
  then have "\<not> adjacent_operands ts"
    by (simp add: ts adjacent_operands_append)
  with adj show ?thesis by simp
qed

lemma not_operator_in: "type_of t \<noteq> OPERATOR \<Longrightarrow> \<not> is_operator_in s t"
  by (simp add: is_operator_in_def)

lemma minus_digit_number:
  assumes "is_digit d"
  shows "tokenize_loop pos (CHR ''-'' # d # rest) tokens
           = tokenize_loop (pos + 2 + length (fst (readNumber_loop False rest)))
               (snd (readNumber_loop False rest))
               (tokens @ [Token NUMBER (CHR ''-'' # d # fst (readNumber_loop False rest)) pos])"
proof -
  have r: "readNumber (CHR ''-'' # d # rest)
             = (CHR ''-'' # d # fst (readNumber_loop False rest), snd (readNumber_loop False rest))"
    using assms by (simp add: readNumber_def split: prod.splits)
  have s: "\<not> is_space (CHR ''-'')" by (simp add: is_space_def)
  have g: "\<not> is_digit (CHR ''-'')" by (simp add: is_digit_def charCode_def)
  show ?thesis
    by (subst tokenize_loop.simps) (simp add: r s g assms)
qed

lemma number_after_operand:
  assumes "is_digit d" and "tokens \<noteq> []" and "operand_end (last tokens)"
    and "tokenize_loop pos (CHR ''-'' # d # rest) tokens = Some (Inr ts)"
  shows "adjacent_operands ts"
proof -
  let ?t = "Token NUMBER (CHR ''-'' # d # fst (readNumber_loop False rest)) pos"
  from assms(4) have "tokenizer_output (tokens @ [?t]) ts"
    unfolding minus_digit_number[OF assms(1)] by (rule tokenize_loop_output)
  then obtain body p where "ts = tokens @ (?t # body @ [Token EOF '''' p])"
    by (auto simp: tokenizer_output_def)
  then show ?thesis
    using assms(2,3) by (simp only: adjacent_operands_append) simp
qed

text \<open>
  The tokenizer returns on every input without a \<open>$\<close>: every other character either is
  consumed or stops the loop with an error.
\<close>

lemma readNumber_loop_split: "readNumber_loop b s = (v, r) \<Longrightarrow> s = v @ r"
proof (induction b s arbitrary: v r rule: readNumber_loop.induct)
  case (1 hasDecimal)
  then show ?case by simp
next
  case (2 hasDecimal char rest)
  then show ?case by (auto split: if_splits prod.splits)
qed

lemma readNumber_rest:
  assumes "is_digit char \<or> char = CHR ''-''"
  shows "\<exists>v. char # rest = fst (readNumber (char # rest)) @ snd (readNumber (char # rest))
           \<and> fst (readNumber (char # rest)) = char # v"
proof -
  obtain v r where l: "readNumber_loop False rest = (v, r)" by (cases "readNumber_loop False rest")
  from readNumber_loop_split[OF l] have s: "rest = v @ r" .
  have "readNumber (char # rest) = (char # v, r)"
    using assms l by (auto simp: readNumber_def)
  then show ?thesis using s by simp
qed

lemma readIdentifierOrCellRef_value:
  assumes "is_letter char"
  shows "value_of (readIdentifierOrCellRef pos (char # rest)) \<noteq> []"
proof (cases "cellRef_prefix (char # rest)")
  case None
  then show ?thesis using assms by (simp add: readIdentifierOrCellRef_def is_ident_char_def)
next
  case (Some v)
  then have "v \<noteq> []" by (auto simp: cellRef_prefix_def Let_def split: if_splits)
  then show ?thesis using Some by (simp add: readIdentifierOrCellRef_def)
qed

lemma tokenize_loop_returns:
  "CHR ''$'' \<notin> set input \<Longrightarrow> \<exists>r. tokenize_loop pos input tokens = Some r"
proof (induction "length input" arbitrary: pos input tokens rule: less_induct)
  case less
  show ?case
  proof (cases input)
    case Nil
    then show ?thesis by (simp add: tokenize_loop.simps)
  next
    case (Cons char rest)
    have nd: "char \<noteq> CHR ''$''" and ndr: "CHR ''$'' \<notin> set rest"
      using less.prems Cons by auto
    have step: "\<exists>r. tokenize_loop p rest ts = Some r" for p ts
      using less.hyps[of rest p ts] ndr Cons by simp
    note unfold = tokenize_loop.simps[of pos "char # rest" tokens]
    consider (space) "is_space char"
      | (number) "\<not> is_space char"
          "is_digit char \<or> (char = CHR ''-'' \<and> rest \<noteq> [] \<and> is_digit (hd rest))"
      | (string) "\<not> is_space char"
          "\<not> (is_digit char \<or> (char = CHR ''-'' \<and> rest \<noteq> [] \<and> is_digit (hd rest)))"
          "char = CHR 0x22"
      | (single) "\<not> is_space char"
          "\<not> (is_digit char \<or> (char = CHR ''-'' \<and> rest \<noteq> [] \<and> is_digit (hd rest)))"
          "char \<noteq> CHR 0x22"
          "char \<in> set ''+-*/^'' \<or> char = CHR ''('' \<or> char = CHR '')'' \<or> char = CHR '',''
             \<or> char = CHR '':''"
      | (letter) "\<not> is_space char"
          "\<not> (is_digit char \<or> (char = CHR ''-'' \<and> rest \<noteq> [] \<and> is_digit (hd rest)))"
          "char \<noteq> CHR 0x22"
          "\<not> (char \<in> set ''+-*/^'' \<or> char = CHR ''('' \<or> char = CHR '')'' \<or> char = CHR '',''
             \<or> char = CHR '':'')"
          "is_letter char"
      | (other) "\<not> is_space char"
          "\<not> (is_digit char \<or> (char = CHR ''-'' \<and> rest \<noteq> [] \<and> is_digit (hd rest)))"
          "char \<noteq> CHR 0x22"
          "\<not> (char \<in> set ''+-*/^'' \<or> char = CHR ''('' \<or> char = CHR '')'' \<or> char = CHR '',''
             \<or> char = CHR '':'')"
          "\<not> is_letter char"
      by blast
    then show ?thesis
    proof cases
      case space
      then show ?thesis unfolding Cons using step by (subst unfold) simp
    next
      case number
      then have "is_digit char \<or> char = CHR ''-''" by blast
      from readNumber_rest[OF this, of rest] obtain v where
        s: "char # rest = fst (readNumber (char # rest)) @ snd (readNumber (char # rest))"
        and f: "fst (readNumber (char # rest)) = char # v"
        by blast
      define r where "r = snd (readNumber (char # rest))"
      have rn: "readNumber (char # rest) = (char # v, r)"
        using f by (simp add: r_def prod_eq_iff)
      from s have rest: "rest = v @ r" by (simp add: f r_def)
      have "\<exists>y. tokenize_loop p r ts = Some y" for p ts
        using less.hyps[of r p ts] ndr Cons rest by simp
      then show ?thesis unfolding Cons using number by (subst unfold) (simp add: rn)
    next
      case string
      show ?thesis
      proof (cases "readString pos (char # rest)")
        case (Inl e)
        then show ?thesis unfolding Cons using string by (subst unfold) simp
      next
        case (Inr vr)
        obtain v r where vr: "vr = (v, r)" by (cases vr)
        have r: "r = tl (dropWhile (\<lambda>c. c \<noteq> CHR 0x22) rest)"
          and ne: "dropWhile (\<lambda>c. c \<noteq> CHR 0x22) rest \<noteq> []"
          using Inr vr by (auto simp: readString_def Let_def split: if_splits)
        have "length (dropWhile (\<lambda>c. c \<noteq> CHR 0x22) rest) \<le> length rest"
          by (rule length_dropWhile_le)
        then have len: "length r < length input" using ne by (simp add: r Cons)
        have "set r \<subseteq> set (dropWhile (\<lambda>c. c \<noteq> CHR 0x22) rest)"
          unfolding r using ne by (cases "dropWhile (\<lambda>c. c \<noteq> CHR 0x22) rest") auto
        also have "\<dots> \<subseteq> set rest" by (auto dest: set_dropWhileD)
        finally have "CHR ''$'' \<notin> set r" using ndr by blast
        then have "\<exists>y. tokenize_loop p r ts = Some y" for p ts
          using less.hyps[of r p ts] len by simp
        then show ?thesis unfolding Cons using string Inr vr by (subst unfold) simp
      qed
    next
      case single
      then show ?thesis unfolding Cons using step by (subst unfold) auto
    next
      case letter
      define token where "token = readIdentifierOrCellRef pos (char # rest)"
      define n where "n = length (value_of token)"
      have "0 < n" using readIdentifierOrCellRef_value[OF letter(5), of pos rest]
        by (simp add: n_def token_def)
      then have len: "length (drop n (char # rest)) < length input" by (simp add: Cons)
      have "set (drop n (char # rest)) \<subseteq> set input"
        unfolding Cons by (rule set_drop_subset)
      then have "CHR ''$'' \<notin> set (drop n (char # rest))" using less.prems by blast
      then have "\<exists>y. tokenize_loop p (drop n (char # rest)) ts = Some y" for p ts
        using less.hyps[of "drop n (char # rest)" p ts] len by simp
      then show ?thesis unfolding Cons using letter
        by (subst unfold) (simp add: token_def[symmetric] n_def[symmetric])
    next
      case other
      then show ?thesis unfolding Cons using nd by (subst unfold) simp
    qed
  qed
qed

lemma trim_subset: "set (trim s) \<subseteq> set s"
proof -
  have "set (trim s) \<subseteq> set (rev (dropWhile is_space s))"
    unfolding trim_def by (auto dest: set_dropWhileD)
  also have "\<dots> \<subseteq> set s" by (auto dest: set_dropWhileD)
  finally show ?thesis .
qed

lemma cleanFormula_subset: "set (trim (cleanFormula formula)) \<subseteq> set formula"
proof -
  have "set (cleanFormula formula) \<subseteq> set (trim formula)"
    by (cases "trim formula") (auto simp: cleanFormula_def)
  with trim_subset[of "cleanFormula formula"] trim_subset[of formula] show ?thesis by blast
qed

lemma tokenize_returns:
  assumes "CHR ''$'' \<notin> set formula"
  shows "\<exists>r. tokenize (cleanFormula formula) = Some r"
proof -
  have "CHR ''$'' \<notin> set (trim (cleanFormula formula))"
    using assms cleanFormula_subset by blast
  then show ?thesis unfolding tokenize_def by (rule tokenize_loop_returns)
qed

text \<open>
  So a formula without a \<open>$\<close> in which the tokenizer comes to a \<open>-\<close> before a digit, the
  last token it has produced ending an operand, is rejected: by the tokenizer when a later
  character stops it, by the parser otherwise, which finds two operands side by side.
\<close>

lemma minus_before_digit_rejected:
  assumes "CHR ''$'' \<notin> set formula"
    and "is_digit d" and "tokens \<noteq> []" and "operand_end (last tokens)"
    and "tokenize (cleanFormula formula) = tokenize_loop pos (CHR ''-'' # d # rest) tokens"
  shows "\<exists>e. parseFormula ops formula = Some (Inl e)"
proof -
  from tokenize_returns[OF assms(1)] obtain r where
    r: "tokenize (cleanFormula formula) = Some r" by blast
  show ?thesis
  proof (cases r)
    case (Inl e)
    then show ?thesis using r by (simp add: parseFormula_def)
  next
    case (Inr ts)
    have "tokenize_loop pos (CHR ''-'' # d # rest) tokens = Some (Inr ts)"
      using r Inr assms(5) by simp
    from number_after_operand[OF assms(2,3,4) this] have a: "adjacent_operands ts" .
    have "tokenizer_output [] ts"
      using r Inr unfolding tokenize_def by (simp add: tokenize_loop_output)
    from tokens_adjacent_rejected[OF this a] obtain e where "parse ops ts = Inl e" by blast
    then show ?thesis using r Inr by (simp add: parseFormula_def)
  qed
qed

text \<open>
  At a \<open>$\<close> that starts no cell reference the tokenizer does not return:
  \<open>readIdentifierOrCellRef\<close> gives an empty identifier, the position stays, and the loop
  comes back to the same \<open>$\<close>.
\<close>

lemma stray_dollar_loops:
  assumes "cellRef_prefix (CHR ''$'' # rest) = None"
  shows "tokenize_loop pos (CHR ''$'' # rest) tokens = None"
proof (rule ccontr)
  assume "tokenize_loop pos (CHR ''$'' # rest) tokens \<noteq> None"
  then obtain y where run: "tokenize_loop pos (CHR ''$'' # rest) tokens = Some y" by blast
  have "input \<noteq> CHR ''$'' # rest"
    if r: "tokenize_loop pos input tokens = Some y" for pos input tokens y
  proof (rule tokenize_loop.raw_induct[where P = "\<lambda>pos input tokens y. input \<noteq> CHR ''$'' # rest"], goal_cases)
    case (1 loop pos input tokens y)
    show ?case
    proof
      assume i: "input = CHR ''$'' # rest"
      have t: "readIdentifierOrCellRef pos (CHR ''$'' # rest) = Token IDENTIFIER [] pos"
        using assms by (simp add: readIdentifierOrCellRef_def is_ident_char_def is_letter_def is_upper_def is_lower_def is_digit_def charCode_def)
      have "loop pos input (tokens @ [Token IDENTIFIER [] pos]) = Some y"
        using 1(2) by (simp add: i t is_space_def is_digit_def charCode_def is_letter_def)
      from 1(1)[OF this] i show False by simp
    qed
  next
    show "tokenize_loop pos input tokens = Some y" by (rule r)
  qed
  from this[OF run] show False by simp
qed

text \<open>
  Claim C10 on the formula \<open>5-3$\<close>. The tokenizer reads the number \<open>5\<close> and, at the \<open>-\<close>
  before the digit, the number \<open>-3\<close>: two operands side by side, as the claim says. It then
  stands at the \<open>$\<close>, which starts no cell reference; \<open>readIdentifierOrCellRef\<close> returns
  an empty identifier there and the loop of \<open>tokenize\<close> never ends. So \<open>parseFormula\<close>
  does not return on \<open>5-3$\<close>, where the claim has every such formula rejected with a parse
  error, as \<open>5-3\<close> is.
\<close>

theorem minus_before_digit_not_rejected:
  "tokenize_loop 0 ''5-3$'' [] = tokenize_loop 3 ''$'' [Token NUMBER ''5'' 0, Token NUMBER ''-3'' 1]
   \<and> adjacent_operands [Token NUMBER ''5'' 0, Token NUMBER ''-3'' 1]
   \<and> readIdentifierOrCellRef 3 ''$'' = Token IDENTIFIER '''' 3
   \<and> tokenize (cleanFormula ''5-3$'') = None
   \<and> parseFormula ops ''5-3$'' = None
   \<and> parseFormula exact_ops ''5-3'' = Some (Inl (ParseError ''Unexpected token: -3'' 1))"
proof -
  have c: "trim (cleanFormula ''5-3$'') = ''5-3$''" by code_simp
  have n: "readNumber ''5-3$'' = (''5'', ''-3$'')" by code_simp
  have d: "is_digit (CHR ''5'')" "is_digit (CHR ''3'')" "\<not> is_space (CHR ''5'')" by code_simp+
  have s1: "tokenize_loop 0 ''5-3$'' [] = tokenize_loop 1 ''-3$'' [Token NUMBER ''5'' 0]"
    by (subst tokenize_loop.simps) (simp add: n d)
  have l: "readNumber_loop False ''$'' = ('''', ''$'')" by code_simp
  have s2: "tokenize_loop 1 ''-3$'' [Token NUMBER ''5'' 0]
              = tokenize_loop 3 ''$'' [Token NUMBER ''5'' 0, Token NUMBER ''-3'' 1]"
    using minus_digit_number[OF d(2), of 1 "''$''" "[Token NUMBER ''5'' 0]"] unfolding l
    by (simp add: numeral_3_eq_3)
  have p: "cellRef_prefix ''$'' = None" by code_simp
  have s3: "tokenize_loop 3 ''$'' [Token NUMBER ''5'' 0, Token NUMBER ''-3'' 1] = None"
    using p by (rule stray_dollar_loops)
  have t: "tokenize (cleanFormula ''5-3$'') = None"
    by (simp only: tokenize_def c s1 s2 s3)
  have a: "adjacent_operands [Token NUMBER ''5'' 0, Token NUMBER ''-3'' 1]" by code_simp
  have i: "readIdentifierOrCellRef 3 ''$'' = Token IDENTIFIER '''' 3" by code_simp
  have f: "parseFormula ops ''5-3$'' = None" by (simp add: parseFormula_def t)
  have g: "parseFormula exact_ops ''5-3'' = Some (Inl (ParseError ''Unexpected token: -3'' 1))"
    by code_simp
  from s1 s2 have "tokenize_loop 0 ''5-3$'' []
                     = tokenize_loop 3 ''$'' [Token NUMBER ''5'' 0, Token NUMBER ''-3'' 1]"
    by (rule trans)
  with a i t f g show ?thesis by blast
qed

end
